theory Spec2Isabelle
  imports Complex_Main
begin

section \<open>The configuration object\<close>

text \<open>
  What a caller can assign to a property: any JavaScript value. A number is finite, NaN
  or an infinity. An object is given by the primitive value that its conversion
  (\<open>ToPrimitive\<close>) yields. Converting a string to a number is the runtime's grammar of
  numeric literals, which is a parameter \<open>parse\<close> of the model.
\<close>

datatype jsnumber = Finite rat | NotANumber | Infinity bool

datatype jsvalue =
    VNumber jsnumber
  | VBoolean bool
  | VString string
  | VNull
  | VUndefined
  | VBigInt int
  | VSymbol
  | VObject jsvalue

datatype jserror = TypeError

fun toNumber :: "(string \<Rightarrow> jsnumber) \<Rightarrow> jsvalue \<Rightarrow> jserror + jsnumber" where
  "toNumber parse (VNumber n) = Inr n"
| "toNumber parse (VBoolean b) = Inr (Finite (if b then 1 else 0))"
| "toNumber parse (VString str) = Inr (parse str)"
| "toNumber parse VNull = Inr (Finite 0)"
| "toNumber parse VUndefined = Inr NotANumber"
| "toNumber parse (VBigInt i) = Inl TypeError"
| "toNumber parse VSymbol = Inl TypeError"
| "toNumber parse (VObject v) = toNumber parse v"

fun isNaN :: "jsnumber \<Rightarrow> bool" where
  "isNaN NotANumber = True"
| "isNaN _ = False"

fun greaterThan :: "jsnumber \<Rightarrow> rat \<Rightarrow> bool" where
  "greaterThan (Finite a) b = (b < a)"
| "greaterThan NotANumber b = False"
| "greaterThan (Infinity positive) b = positive"

fun lessThan :: "jsnumber \<Rightarrow> rat \<Rightarrow> bool" where
  "lessThan (Finite a) b = (a < b)"
| "lessThan NotANumber b = False"
| "lessThan (Infinity positive) b = (\<not> positive)"

text \<open>A \<open>Pixel\<close> of the debug colours is the triple of its components \<open>r\<close>, \<open>g\<close>, \<open>b\<close>.\<close>

type_synonym pixel = "nat \<times> nat \<times> nat"

record configuration =
  debugMaskColors :: "pixel list list"
  decimalPointFloodFillThreshold :: jsvalue
  grayThreshold :: jsvalue
  rotate180 :: bool

definition newConfiguration :: configuration where
  "newConfiguration =
     \<lparr>debugMaskColors =
        [[(82, 4, 10), (233, 26, 33)],
         [(91, 38, 18), (255, 136, 42)],
         [(82, 67, 0), (255, 242, 0)],
         [(12, 71, 30), (32, 200, 72)],
         [(0, 42, 79), (0, 162, 232)],
         [(61, 12, 61), (143, 56, 144)]],
      decimalPointFloodFillThreshold = VNumber (Finite 40),
      grayThreshold = VNumber (Finite 90),
      rotate180 = True\<rparr>"

definition validThreshold :: "jsnumber \<Rightarrow> bool" where
  \<comment> \<open>\<open>!isNaN(value) && value > 0 && value < 255\<close>, on the number the value converts to\<close>
  "validThreshold n = (\<not> isNaN n \<and> greaterThan n 0 \<and> lessThan n 255)"

definition set_decimalPointFloodFillThreshold ::
    "(string \<Rightarrow> jsnumber) \<Rightarrow> configuration \<Rightarrow> jsvalue \<Rightarrow> jserror + configuration" where
  "set_decimalPointFloodFillThreshold parse c v =
     (case toNumber parse v of
        Inl e \<Rightarrow> Inl e
      | Inr n \<Rightarrow> Inr (if validThreshold n then c\<lparr>decimalPointFloodFillThreshold := v\<rparr> else c))"

definition set_grayThreshold ::
    "(string \<Rightarrow> jsnumber) \<Rightarrow> configuration \<Rightarrow> jsvalue \<Rightarrow> jserror + configuration" where
  "set_grayThreshold parse c v =
     (case toNumber parse v of
        Inl e \<Rightarrow> Inl e
      | Inr n \<Rightarrow> Inr (if validThreshold n then c\<lparr>grayThreshold := v\<rparr> else c))"

definition set_rotate180 :: "configuration \<Rightarrow> jsvalue \<Rightarrow> configuration" where
  "set_rotate180 c v = (case v of VBoolean flag \<Rightarrow> c\<lparr>rotate180 := flag\<rparr> | _ \<Rightarrow> c)"

section \<open>JavaScript numbers\<close>

text \<open>
  A JavaScript number is an IEEE 754 double. The values this program computes with are
  built from bytes, pixel counts and coordinates, so they are zero or lie far inside the
  normal range; a finite double is modelled as the rational it denotes, and every
  operation that can be inexact is followed by \<open>fl\<close>, rounding to the nearest number with
  a 53 bit significand, ties to the even significand. \<open>NaN\<close> is what arithmetic on
  \<open>undefined\<close> gives.
\<close>

datatype jsnum = Num rat | NaN

function bitlength :: "int \<Rightarrow> int" where
  "bitlength n = (if n \<le> 0 then 0 else 1 + bitlength (n div 2))"
  by auto

termination
  by (relation "measure nat") auto

declare bitlength.simps [simp del]

definition pow2 :: "int \<Rightarrow> rat" where
  "pow2 k = (if 0 \<le> k then 2 ^ nat k else 1 / 2 ^ nat (- k))"

definition ilog2 :: "rat \<Rightarrow> int" where
  \<comment> \<open>the binary exponent of a positive rational: \<open>2 ^ ilog2 a \<le> a < 2 ^ (ilog2 a + 1)\<close>\<close>
  "ilog2 a = (if 1 \<le> a then bitlength \<lfloor>a\<rfloor> - 1 else - bitlength (\<lceil>1 / a\<rceil> - 1))"

definition roundHalfEven :: "rat \<Rightarrow> int" where
  "roundHalfEven m =
     (let f = \<lfloor>m\<rfloor>; d = m - of_int f
      in if d < 1 / 2 then f else if 1 / 2 < d then f + 1 else if even f then f else f + 1)"

definition fl :: "rat \<Rightarrow> rat" where
  "fl x = (if x = 0 then 0
           else let q = pow2 (ilog2 \<bar>x\<bar> - 52)
                in sgn x * of_int (roundHalfEven (\<bar>x\<bar> / q)) * q)"

fun jadd :: "jsnum \<Rightarrow> jsnum \<Rightarrow> jsnum" where
  "jadd (Num a) (Num b) = Num (fl (a + b))"
| "jadd _ _ = NaN"

fun jsub :: "jsnum \<Rightarrow> jsnum \<Rightarrow> jsnum" where
  "jsub (Num a) (Num b) = Num (fl (a - b))"
| "jsub _ _ = NaN"

fun jdiv :: "jsnum \<Rightarrow> jsnum \<Rightarrow> jsnum" where
  \<comment> \<open>no division of this program has a zero divisor (3, a range of at least 1, a
      positive count); the model has no infinities, so \<open>NaN\<close> stands there\<close>
  "jdiv (Num a) (Num b) = (if b = 0 then NaN else Num (fl (a / b)))"
| "jdiv _ _ = NaN"

fun jabs :: "jsnum \<Rightarrow> jsnum" where
  "jabs (Num a) = Num \<bar>a\<bar>"
| "jabs NaN = NaN"

fun jmax :: "jsnum \<Rightarrow> jsnum \<Rightarrow> jsnum" where
  \<comment> \<open>\<open>Math.max\<close>: \<open>NaN\<close> if either argument is\<close>
  "jmax (Num a) (Num b) = Num (max a b)"
| "jmax _ _ = NaN"

fun jgt :: "jsnum \<Rightarrow> jsnum \<Rightarrow> bool" where
  \<comment> \<open>\<open>a > b\<close>: false as soon as one side is \<open>NaN\<close>\<close>
  "jgt (Num a) (Num b) = (b < a)"
| "jgt _ _ = False"

fun jle :: "jsnum \<Rightarrow> jsnum \<Rightarrow> bool" where
  "jle (Num a) (Num b) = (a \<le> b)"
| "jle _ _ = False"

section \<open>Frames, grids and the reader's state\<close>

type_synonym coord = "int \<times> int"

text \<open>An \<open>ImageData\<close>: the program reads nothing but its \<open>data\<close>, the RGBA bytes.\<close>

record imageData =
  data :: "nat list"

text \<open>
  Indexing a JavaScript array outside its range gives \<open>undefined\<close>, here \<open>None\<close>.
\<close>

definition elemAt :: "'a list \<Rightarrow> int \<Rightarrow> 'a option" where
  "elemAt xs i = (if 0 \<le> i \<and> nat i < length xs then Some (xs ! nat i) else None)"

definition create2dArray :: "nat \<Rightarrow> nat \<Rightarrow> 'a \<Rightarrow> 'a list list" where
  "create2dArray height width fillValue = replicate height (replicate width fillValue)"

datatype workerMessage = ReadStart | ReadStop

datatype effect =
    Change string
  | Output string
  | Alert
  | Warn nat nat
  | Post workerMessage

text \<open>
  The fields of \<open>SegmentDisplayReader\<close>. The canvas enters with its two dimensions.
  \<open>segmentSamples\<close> is the fixed table of 6 digits with 8 coordinate arrays each; it is a
  function of the digit and the segment, of which only digits below 6 and segments
  below 8 are ever read or written.
\<close>

record reader =
  canvasWidth :: nat
  canvasHeight :: nat
  calibrationImages :: "imageData list"
  lastDisplay :: "string option"
  calibrated :: bool
  showDebugMask :: bool
  consistentOutputCount :: nat
  grayThreshold :: rat
  floodFillDpThreshold :: rat
  rotate180 :: bool
  segmentSamples :: "nat \<Rightarrow> nat \<Rightarrow> coord list"
  grayArray :: "jsnum list list"
  litReference :: "jsnum list list"
  unlitReference :: "jsnum list list"
  backgroundMask :: "nat list list"

definition createPixelArray :: "reader \<Rightarrow> 'a \<Rightarrow> 'a list list" where
  "createPixelArray s fillValue = create2dArray (canvasHeight s) (canvasWidth s) fillValue"

definition noSamples :: "nat \<Rightarrow> nat \<Rightarrow> coord list" where
  "noSamples = (\<lambda>digit segment. [])"

section \<open>Classifying a pixel\<close>

definition getPixelGrayValue :: "reader \<Rightarrow> imageData \<Rightarrow> int \<Rightarrow> int \<Rightarrow> jsnum" where
  "getPixelGrayValue s img x y =
     (let index = (y * int (canvasWidth s) + x) * 4
      in case (elemAt (data img) index, elemAt (data img) (index + 1), elemAt (data img) (index + 2)) of
           (Some r, Some g, Some b) \<Rightarrow> Num (fl (of_nat (r + g + b) / 3))
         | _ \<Rightarrow> NaN)"

definition cell :: "jsnum list list \<Rightarrow> int \<Rightarrow> int \<Rightarrow> jsnum" where
  \<comment> \<open>\<open>row[x]\<close> in arithmetic, for a row that exists: \<open>undefined\<close> counts as \<open>NaN\<close>\<close>
  "cell grid x y = (case elemAt grid y of None \<Rightarrow> NaN
                    | Some row \<Rightarrow> (case elemAt row x of None \<Rightarrow> NaN | Some v \<Rightarrow> v))"

definition isPixelLit :: "reader \<Rightarrow> jsnum \<Rightarrow> int \<Rightarrow> int \<Rightarrow> jsnum \<Rightarrow> bool" where
  "isPixelLit s pixelGray x y ambientOffset =
     (if elemAt (litReference s) y = None \<or> elemAt (unlitReference s) y = None
      then jgt pixelGray (case elemAt (grayArray s) y of None \<Rightarrow> Num 0 | Some _ \<Rightarrow> cell (grayArray s) x y)
      else let litGray = cell (litReference s) x y;
               unlitGray = cell (unlitReference s) x y;
               adjustedGray = jsub pixelGray ambientOffset;
               range = jmax (jabs (jsub litGray unlitGray)) (Num 1);
               distanceToLit = jdiv (jabs (jsub adjustedGray litGray)) range;
               distanceToUnlit = jdiv (jabs (jsub adjustedGray unlitGray)) range
           in jle distanceToLit distanceToUnlit)"

text \<open>
  \<open>estimateAmbientOffset\<close>: the mean of \<open>pixelGray - unlitRow[x]\<close> over the background
  pixels met on a grid of strides \<open>stepX\<close>, \<open>stepY\<close>.
\<close>

definition strided :: "nat \<Rightarrow> nat \<Rightarrow> nat list" where
  \<comment> \<open>the values of \<open>i\<close> in \<open>for (i = 0; i < n; i += step)\<close>\<close>
  "strided n step = filter (\<lambda>i. i mod step = 0) [0..<n]"

definition ambientRow :: "reader \<Rightarrow> imageData \<Rightarrow> nat \<Rightarrow> jsnum \<times> nat \<Rightarrow> nat \<Rightarrow> jsnum \<times> nat" where
  "ambientRow s img stepX acc y =
     (case (elemAt (backgroundMask s) (int y), elemAt (unlitReference s) (int y)) of
        (Some maskRow, Some unlitRow) \<Rightarrow>
          foldl (\<lambda>(sum, count) x.
                   if (case elemAt maskRow (int x) of None \<Rightarrow> False | Some m \<Rightarrow> m \<noteq> 0)
                   then (jadd sum (jsub (getPixelGrayValue s img (int x) (int y))
                                        (case elemAt unlitRow (int x) of None \<Rightarrow> NaN | Some u \<Rightarrow> u)),
                         Suc count)
                   else (sum, count))
                acc (strided (canvasWidth s) stepX)
      | _ \<Rightarrow> acc)"

definition estimateAmbientOffset :: "reader \<Rightarrow> imageData \<Rightarrow> jsnum" where
  "estimateAmbientOffset s img =
     (if backgroundMask s = [] then Num 0
      else let stepY = max 1 (canvasHeight s div 40);
               stepX = max 1 (canvasWidth s div 40);
               (sum, count) = foldl (ambientRow s img stepX) (Num 0, 0) (strided (canvasHeight s) stepY)
           in if count = 0 then Num 0 else jdiv sum (Num (of_nat count)))"

definition pixelLit :: "reader \<Rightarrow> imageData \<Rightarrow> jsnum \<Rightarrow> coord \<Rightarrow> bool" where
  \<comment> \<open>the test both \<open>readDisplays\<close> and \<open>refine\<close> make on a sample pixel\<close>
  "pixelLit s img ambientOffset p =
     isPixelLit s (getPixelGrayValue s img (fst p) (snd p)) (fst p) (snd p) ambientOffset"

section \<open>Reading the displays\<close>

fun charMap :: "nat \<Rightarrow> string option" where
  "charMap n =
    (if n = 0 then Some '' '' else if n = 2 then Some [CHR 0x27] else if n = 4 then Some ''i''
     else if n = 6 then Some ''1'' else if n = 7 then Some ''7'' else if n = 8 then Some ''_''
     else if n = 16 then Some '','' else if n = 28 then Some ''u'' else if n = 30 then Some ''J''
     else if n = 32 then Some [CHR 0x60] else if n = 34 then Some [CHR 0x22]
     else if n = 48 then Some ''I'' else if n = 56 then Some ''L'' else if n = 57 then Some ''C''
     else if n = 61 then Some ''G'' else if n = 62 then Some ''U'' else if n = 63 then Some ''0''
     else if n = 64 then Some ''-'' else if n = 79 then Some ''3'' else if n = 80 then Some ''r''
     else if n = 83 then Some ''?'' else if n = 84 then Some ''n'' else if n = 88 then Some ''c''
     else if n = 91 then Some ''2'' else if n = 92 then Some ''o'' else if n = 94 then Some ''d''
     else if n = 95 then Some ''a'' else if n = 102 then Some ''4'' else if n = 103 then Some ''q''
     else if n = 109 then Some ''5'' else if n = 110 then Some ''Y'' else if n = 111 then Some ''9''
     else if n = 113 then Some ''F'' else if n = 115 then Some ''P'' else if n = 116 then Some ''h''
     else if n = 118 then Some ''H'' else if n = 119 then Some ''A'' else if n = 120 then Some ''t''
     else if n = 121 then Some ''E'' else if n = 123 then Some ''e'' else if n = 124 then Some ''b''
     else if n = 125 then Some ''6'' else if n = 127 then Some ''8'' else None)"

declare charMap.simps [simp del]

definition unknownGlyph :: string where
  "unknownGlyph = [CHR 0xF4, CHR 0xBF, CHR 0xBE]"

text \<open>
  The inner loop of \<open>readDisplays\<close> over one segment's pixels: \<open>toLight\<close> is decremented
  at each lit pixel, and the loop breaks with the segment on when the decremented value
  is 0.
\<close>

fun scanSegment :: "(coord \<Rightarrow> bool) \<Rightarrow> int \<Rightarrow> coord list \<Rightarrow> bool" where
  "scanSegment lit toLight [] = False"
| "scanSegment lit toLight (p # ps) =
     (if lit p
      then (if toLight - 1 = 0 then True else scanSegment lit (toLight - 1) ps)
      else scanSegment lit toLight ps)"

definition segmentOn :: "(coord \<Rightarrow> bool) \<Rightarrow> coord list \<Rightarrow> bool" where
  "segmentOn lit pixels = scanSegment lit (int (length pixels) div 2) pixels"

definition readSegment :: "(coord \<Rightarrow> bool) \<Rightarrow> (nat \<Rightarrow> coord list) \<Rightarrow> nat \<times> bool \<Rightarrow> nat \<Rightarrow> nat \<times> bool" where
  "readSegment lit digitSegments acc segment =
     (case acc of (bitmask, lightDecimalPoint) \<Rightarrow>
        if segmentOn lit (digitSegments segment)
        then (if segment = 7 then (bitmask, True) else (bitmask + 2 ^ segment, lightDecimalPoint))
        else (bitmask, lightDecimalPoint))"

definition digitBitmask :: "(coord \<Rightarrow> bool) \<Rightarrow> (nat \<Rightarrow> coord list) \<Rightarrow> nat \<times> bool" where
  "digitBitmask lit digitSegments = foldl (readSegment lit digitSegments) (0, False) [0..<8]"

definition readDigit :: "(coord \<Rightarrow> bool) \<Rightarrow> (nat \<Rightarrow> coord list) \<Rightarrow> string" where
  "readDigit lit digitSegments =
     (case digitBitmask lit digitSegments of (bitmask, lightDecimalPoint) \<Rightarrow>
        (case charMap bitmask of Some c \<Rightarrow> c | None \<Rightarrow> unknownGlyph)
        @ (if lightDecimalPoint then ''.'' else []))"

definition startsWith :: "string \<Rightarrow> string \<Rightarrow> bool" where
  "startsWith str p = (take (length p) str = p)"

definition correctNotation :: "string \<Rightarrow> string" where
  "correctNotation result =
     (if elemAt result 2 = Some CHR ''.''
      then (if startsWith result ''5P'' then ''S'' @ drop 1 result
            else if startsWith result ''1n'' then ''I'' @ drop 1 result
            else result)
      else result)"

definition decodeDisplays :: "reader \<Rightarrow> imageData \<Rightarrow> string" where
  "decodeDisplays s currentData =
     (let ambientOffset = estimateAmbientOffset s currentData
      in correctNotation
           (concat (map (\<lambda>digit. readDigit (pixelLit s currentData ambientOffset) (segmentSamples s digit))
                        [0..<6])))"

text \<open>
  The end of \<open>readDisplays\<close>: the comparison of the decoded string with \<open>lastDisplay\<close>
  and the two events. \<open>consistentOutputCount++ === 3\<close> tests the value before the
  increment.
\<close>

definition notifyDisplay :: "reader \<Rightarrow> string \<Rightarrow> effect list \<times> reader" where
  "notifyDisplay s result =
     (if lastDisplay s \<noteq> Some result
      then ([Change result], s\<lparr>consistentOutputCount := 0, lastDisplay := Some result\<rparr>)
      else (if consistentOutputCount s = 3 then [Output result] else [],
            s\<lparr>consistentOutputCount := consistentOutputCount s + 1\<rparr>))"

text \<open>
  \<open>readDisplays\<close> on the frame that \<open>captureImageData\<close> returns. The debug overlay
  (\<open>showDebugMask\<close>) paints the canvas and touches no field of the reader.
\<close>

definition readDisplays :: "reader \<Rightarrow> imageData \<Rightarrow> effect list \<times> reader" where
  "readDisplays s currentData = notifyDisplay s (decodeDisplays s currentData)"

fun feed :: "reader \<Rightarrow> string list \<Rightarrow> effect list \<times> reader" where
  \<comment> \<open>a run of ticks, given the string each tick decodes\<close>
  "feed s [] = ([], s)"
| "feed s (r # rs) =
     (case notifyDisplay s r of (es, s') \<Rightarrow> (case feed s' rs of (es', s'') \<Rightarrow> (es @ es', s'')))"

fun readAll :: "reader \<Rightarrow> imageData list \<Rightarrow> effect list \<times> reader" where
  "readAll s [] = ([], s)"
| "readAll s (f # fs) =
     (case readDisplays s f of (es, s') \<Rightarrow> (case readAll s' fs of (es', s'') \<Rightarrow> (es @ es', s'')))"

text \<open>
  The constructor, for a canvas of the given size and the three values it copies from the
  configuration.
\<close>

definition newReader :: "nat \<Rightarrow> nat \<Rightarrow> rat \<Rightarrow> rat \<Rightarrow> bool \<Rightarrow> reader" where
  "newReader width height gray dp rot =
     \<lparr>canvasWidth = width, canvasHeight = height, calibrationImages = [], lastDisplay = None,
      calibrated = False, showDebugMask = False, consistentOutputCount = 0,
      grayThreshold = gray, floodFillDpThreshold = dp, rotate180 = rot,
      segmentSamples = noSamples,
      grayArray = create2dArray height width (Num 0),
      litReference = create2dArray height width (Num 0),
      unlitReference = create2dArray height width (Num 0),
      backgroundMask = create2dArray height width 0\<rparr>"

text \<open>How many of the last ticks of a history decoded the string \<open>r\<close>.\<close>

definition trailing :: "string \<Rightarrow> string list \<Rightarrow> nat" where
  "trailing r rs = length (takeWhile (\<lambda>x. x = r) (rev rs))"

section \<open>Refining the sample sets\<close>

text \<open>
  \<open>Math.floor(pixelCount * 0.7)\<close>: the literal \<open>0.7\<close> is the double nearest to 7/10, and the
  product is rounded before the floor is taken.
\<close>

definition highLimit :: "nat \<Rightarrow> int" where
  "highLimit pixelCount = \<lfloor>fl (of_nat pixelCount * fl (7 / 10))\<rfloor>"

definition refineSegment :: "(coord \<Rightarrow> bool) \<Rightarrow> coord list \<Rightarrow> coord list" where
  "refineSegment lit pixels =
     (let litPixels = filter lit pixels;
          offPixels = filter (\<lambda>p. \<not> lit p) pixels;
          limit = highLimit (length pixels)
      in if limit < int (length litPixels) then litPixels
         else if limit < int (length offPixels) then offPixels
         else pixels)"

text \<open>
  \<open>refine\<close> on the frame that \<open>captureImageData\<close> returns. The classification reads the
  reference grids only, so the 48 assignments to \<open>digitSegments[segment]\<close> do not
  influence one another.
\<close>

definition refine :: "reader \<Rightarrow> imageData \<Rightarrow> reader" where
  "refine s currentData =
     (let ambientOffset = estimateAmbientOffset s currentData
      in s\<lparr>segmentSamples := (\<lambda>digit segment.
             if digit < 6 \<and> segment < 8
             then refineSegment (pixelLit s currentData ambientOffset) (segmentSamples s digit segment)
             else segmentSamples s digit segment)\<rparr>)"

section \<open>Example readers and frames\<close>

text \<open>
  A canvas of one row with two pixels, calibrated to the gray levels 200 (lit) and 50
  (unlit), and a frame whose first pixel is bright and whose second is dark.
\<close>

definition twoPixelReader :: reader where
  "twoPixelReader =
     (newReader 2 1 90 40 True)
       \<lparr>litReference := [[Num 200, Num 200]], unlitReference := [[Num 50, Num 50]],
        segmentSamples := noSamples(0 := (noSamples 0)(0 := [(0, 0), (1, 0)], 1 := [(0, 0)]))\<rparr>"

definition twoPixelFrame :: imageData where
  "twoPixelFrame = \<lparr>data = [210, 210, 210, 255, 60, 60, 60, 255]\<rparr>"

text \<open>
  The same on a row of \<open>n\<close> pixels, all of them samples of segment A of digit 0, and the
  frame whose first \<open>k\<close> pixels are bright.
\<close>

definition rowReader :: "nat \<Rightarrow> reader" where
  "rowReader n =
     (newReader n 1 90 40 True)
       \<lparr>litReference := [replicate n (Num 200)], unlitReference := [replicate n (Num 50)],
        segmentSamples := noSamples(0 := (noSamples 0)(0 := map (\<lambda>i. (int i, 0)) [0..<n]))\<rparr>"

definition rowFrame :: "nat \<Rightarrow> nat \<Rightarrow> imageData" where
  "rowFrame k n = \<lparr>data = concat (map (\<lambda>i. if i < k then [210, 210, 210, 255] else [60, 60, 60, 255]) [0..<n])\<rparr>"

text \<open>
  A reader that holds two calibration images of its canvas of two pixels: the frame above
  and a dark one.
\<close>

definition darkFrame :: imageData where
  "darkFrame = \<lparr>data = [0, 0, 0, 255, 0, 0, 0, 255]\<rparr>"

definition capturedPair :: reader where
  "capturedPair = (newReader 2 1 90 40 True)\<lparr>calibrationImages := [twoPixelFrame, darkFrame]\<rparr>"

text \<open>
  A canvas of one row with 146 pixels and two frames of it with stripes: the pixels 0 and
  1 and every twelfth pixel from 13 on are walls, the eleven pixels between two walls are
  a hole. The first frame has the walls at gray level 132 and the holes black, the second
  has the walls black and the holes at gray level 14. The sums over the two frames are the
  same, 14 walls of 3 * 132 and 132 hole pixels of 3 * 14.
\<close>

definition wallAt :: "nat \<Rightarrow> bool" where
  "wallAt x = (x < 2 \<or> (x - 1) mod 12 = 0)"

definition stripeFrame :: "nat \<Rightarrow> nat \<Rightarrow> imageData" where
  "stripeFrame wall hole =
     \<lparr>data = concat (map (\<lambda>x. if wallAt x then [wall, wall, wall, 255] else [hole, hole, hole, 255]) [0..<146])\<rparr>"

definition wallFrame :: imageData where
  "wallFrame = stripeFrame 132 0"

definition holeFrame :: imageData where
  "holeFrame = stripeFrame 0 14"

definition stripeReader :: "imageData list \<Rightarrow> reader" where
  "stripeReader images = (newReader 146 1 90 40 True)\<lparr>calibrationImages := images\<rparr>"

definition stripes :: "nat list list" where
  "stripes = [map (\<lambda>x. if wallAt x then 1 else 0) [0..<146]]"

definition stripeHoles :: "coord list list" where
  "stripeHoles = map (\<lambda>k. map (\<lambda>i. (int (2 + 12 * k + i), 0)) [0..<11]) [0..<12]"


section \<open>The flood fill\<close>

text \<open>
  \<open>result[ny][nx] = 1\<close>. A missing row makes the assignment throw. An index at or beyond
  the row's length extends the array, and the elements in between are holes; every read
  of a bitmask in this program (\<open>value === 1\<close>, \<open>!value\<close>, \<open>if (value)\<close>, and \<open>map\<close>, \<open>flat\<close>,
  which skip holes) takes a hole for 0, so the holes are written as 0. A negative index
  adds a property that is no element of the array and that nothing reads.
\<close>

definition writeAt :: "nat list \<Rightarrow> int \<Rightarrow> nat \<Rightarrow> nat list" where
  "writeAt row nx v =
     (if nx < 0 then row
      else if nat nx < length row then row[nat nx := v]
      else row @ replicate (nat nx - length row) 0 @ [v])"

definition setPixel :: "nat list list \<Rightarrow> int \<Rightarrow> int \<Rightarrow> jserror + nat list list" where
  "setPixel result nx ny =
     (case elemAt result ny of
        None \<Rightarrow> Inl TypeError
      | Some row \<Rightarrow> Inr (result[nat ny := writeAt row nx 1]))"

text \<open>
  A \<open>BitmaskMatchFunction\<close> gets the value (\<open>undefined\<close> beyond the row), the coordinate
  and the matrix. The one of \<open>findHoleComponent\<close> updates a set of its caller, so a test
  function also takes and returns a state \<open>'e\<close>.
\<close>

type_synonym ('a, 'e) matchFunction = "'a option \<Rightarrow> coord \<Rightarrow> 'a list list \<Rightarrow> 'e \<Rightarrow> bool \<times> 'e"

record 'e fill =
  queue :: "coord list"
  visited :: "coord set"
  result :: "nat list list"
  env :: 'e

definition directions :: "coord list" where
  "directions = [(-1, -1), (0, -1), (1, -1), (-1, 0), (1, 0), (-1, 1), (0, 1), (1, 1)]"

definition visitNeighbour ::
    "('a, 'e) matchFunction \<Rightarrow> 'a list list \<Rightarrow> coord \<Rightarrow> 'e fill \<Rightarrow> coord \<Rightarrow> jserror + 'e fill" where
  "visitNeighbour testFunction testArray next st d =
     (let nx = fst next + fst d; ny = snd next + snd d
      in case elemAt testArray ny of
           None \<Rightarrow> Inr st
         | Some row \<Rightarrow>
             if (nx, ny) \<in> visited st then Inr st
             else (case testFunction (elemAt row nx) (nx, ny) testArray (env st) of
                     (matches, e) \<Rightarrow>
                       if matches
                       then (case setPixel (result st) nx ny of
                               Inl err \<Rightarrow> Inl err
                             | Inr res \<Rightarrow>
                                 Inr (st\<lparr>queue := queue st @ [(nx, ny)],
                                         visited := insert (nx, ny) (visited st),
                                         result := res, env := e\<rparr>))
                       else Inr (st\<lparr>visited := insert (nx, ny) (visited st), env := e\<rparr>)))"

fun visitAll ::
    "('a, 'e) matchFunction \<Rightarrow> 'a list list \<Rightarrow> coord \<Rightarrow> 'e fill \<Rightarrow> coord list \<Rightarrow> jserror + 'e fill" where
  "visitAll testFunction testArray next st [] = Inr st"
| "visitAll testFunction testArray next st (d # ds) =
     (case visitNeighbour testFunction testArray next st d of
        Inl err \<Rightarrow> Inl err
      | Inr st' \<Rightarrow> visitAll testFunction testArray next st' ds)"

partial_function (option) fillLoop ::
    "('a, 'e) matchFunction \<Rightarrow> 'a list list \<Rightarrow> 'e fill \<Rightarrow> (jserror + 'e fill) option" where
  "fillLoop testFunction testArray st =
     (case queue st of
        [] \<Rightarrow> Some (Inr st)
      | next # rest \<Rightarrow>
          (case visitAll testFunction testArray next (st\<lparr>queue := rest\<rparr>) directions of
             Inl err \<Rightarrow> Some (Inl err)
           | Inr st' \<Rightarrow> fillLoop testFunction testArray st'))"

declare fillLoop.simps [code]

definition generateBitmask ::
    "('a \<Rightarrow> bool) \<Rightarrow> reader \<Rightarrow> 'a list list \<Rightarrow> ('a, 'e) matchFunction option \<Rightarrow> nat list list option
       \<Rightarrow> coord list \<Rightarrow> 'e \<Rightarrow> (jserror + nat list list \<times> 'e) option" where
  "generateBitmask truthy s testArray testFunction result0 queue0 e =
     (case testFunction of
        None \<Rightarrow> Some (Inr (map (map (\<lambda>v. if truthy v then 1 else 0)) testArray, e))
      | Some tf \<Rightarrow>
          (case fillLoop tf testArray
                  \<lparr>queue = (if queue0 = [] then [(0, 0)] else queue0), visited = {},
                   result = (case result0 of None \<Rightarrow> createPixelArray s 0 | Some res \<Rightarrow> res),
                   env = e\<rparr> of
             None \<Rightarrow> None
           | Some (Inl err) \<Rightarrow> Some (Inl err)
           | Some (Inr st) \<Rightarrow> Some (Inr (result st, env st))))"

definition bitmaskToPixelArray :: "nat list list \<Rightarrow> coord list" where
  "bitmaskToPixelArray bitmask =
     concat (map (\<lambda>(y, row). map (\<lambda>(x, v). (int x, int y)) (filter (\<lambda>(x, v). v = 1) (enumerate 0 row)))
                 (enumerate 0 bitmask))"

section \<open>Calibration\<close>

definition byteSum :: "nat list \<Rightarrow> int \<Rightarrow> jsnum" where
  \<comment> \<open>\<open>data[index] + data[index + 1] + data[index + 2]\<close>\<close>
  "byteSum d index =
     (case (elemAt d index, elemAt d (index + 1), elemAt d (index + 2)) of
        (Some r, Some g, Some b) \<Rightarrow> Num (of_nat (r + g + b))
      | _ \<Rightarrow> NaN)"

definition brightness :: "imageData \<Rightarrow> nat \<Rightarrow> jsnum" where
  \<comment> \<open>the sum that \<open>getOrderedCalibrationImages\<close> forms over the indices below \<open>length\<close>\<close>
  "brightness img len = foldl (\<lambda>sum index. jadd sum (byteSum (data img) (int index))) (Num 0) (strided len 4)"

definition getOrderedCalibrationImages :: "reader \<Rightarrow> imageData option \<times> imageData option" where
  "getOrderedCalibrationImages s =
     (case calibrationImages s of
        [] \<Rightarrow> (None, None)
      | [imageA] \<Rightarrow> (Some imageA, None)
      | imageA # imageB # _ \<Rightarrow>
          (let len = length (data imageA);
               sumA = brightness imageA len;
               sumB = brightness imageB len
           in if jgt sumA sumB then (Some imageA, Some imageB) else (Some imageB, Some imageA)))"

definition pixelGrid :: "reader \<Rightarrow> (int \<Rightarrow> int \<Rightarrow> 'a) \<Rightarrow> 'a list list" where
  \<comment> \<open>the grid that the two loops over \<open>y < height\<close>, \<open>x < width\<close> fill\<close>
  "pixelGrid s f = map (\<lambda>y. map (\<lambda>x. f (int x) (int y)) [0..<canvasWidth s]) [0..<canvasHeight s]"

definition difference :: "reader \<Rightarrow> imageData \<Rightarrow> imageData \<Rightarrow> int \<Rightarrow> int \<Rightarrow> jsnum" where
  "difference s litImage unlitImage x y =
     jabs (jsub (getPixelGrayValue s litImage x y) (getPixelGrayValue s unlitImage x y))"

definition detectablePixels :: "reader \<Rightarrow> imageData \<Rightarrow> imageData \<Rightarrow> nat list list" where
  "detectablePixels s litImage unlitImage =
     pixelGrid s (\<lambda>x y. if jgt (difference s litImage unlitImage x y) (Num (grayThreshold s)) then 1 else 0)"

definition cell2 :: "'a list list \<Rightarrow> int \<Rightarrow> int \<Rightarrow> 'a option" where
  \<comment> \<open>\<open>grid[y][x]\<close>, \<open>undefined\<close> beyond the row; every use below has a row \<open>y\<close>\<close>
  "cell2 grid x y = (case elemAt grid y of None \<Rightarrow> None | Some row \<Rightarrow> elemAt row x)"

definition nonzero :: "nat \<Rightarrow> bool" where
  "nonzero v = (v \<noteq> 0)"

definition backgroundMatchFunction :: "nat list list \<Rightarrow> (nat, unit) matchFunction" where
  "backgroundMatchFunction detectablePixelArray =
     (\<lambda>v c matrix e. (cell2 detectablePixelArray (fst c) (snd c) = Some 0, e))"

text \<open>
  The test function of \<open>findHoleComponent\<close>; its state is the set \<open>visited\<close> of
  \<open>determineLocations\<close>.
\<close>

definition holeMatchFunction :: "nat list list \<Rightarrow> nat list list \<Rightarrow> (nat, coord set) matchFunction" where
  "holeMatchFunction pixelArray background =
     (\<lambda>v c matrix seen.
        if c \<in> seen then (False, seen)
        else (cell2 pixelArray (fst c) (snd c) = Some 0
                \<and> (case cell2 background (fst c) (snd c) of None \<Rightarrow> True | Some m \<Rightarrow> m = 0),
              insert c seen))"

definition findHoleComponent ::
    "reader \<Rightarrow> nat list list \<Rightarrow> nat list list \<Rightarrow> coord set \<Rightarrow> coord
       \<Rightarrow> (jserror + coord list \<times> coord set) option" where
  "findHoleComponent s pixelArray background seen startCoordinate =
     (case generateBitmask nonzero s pixelArray (Some (holeMatchFunction pixelArray background)) None
             [startCoordinate] seen of
        None \<Rightarrow> None
      | Some (Inl err) \<Rightarrow> Some (Inl err)
      | Some (Inr (bitmask, seen')) \<Rightarrow> Some (Inr (bitmaskToPixelArray bitmask, seen')))"

text \<open>
  The scan for holes, over the coordinates in the order of the two loops. It carries the
  set \<open>visited\<close> and the components found so far, each one the list of its pixels.
\<close>

fun scanHoles ::
    "reader \<Rightarrow> nat list list \<Rightarrow> nat list list \<Rightarrow> coord list \<Rightarrow> coord set \<Rightarrow> coord list list
       \<Rightarrow> (jserror + coord list list) option" where
  "scanHoles s detectable background [] seen holes = Some (Inr holes)"
| "scanHoles s detectable background (c # cs) seen holes =
     (if cell2 detectable (fst c) (snd c) = Some 0
         \<and> (case cell2 background (fst c) (snd c) of None \<Rightarrow> True | Some m \<Rightarrow> m = 0)
         \<and> c \<notin> seen
      then (case findHoleComponent s detectable background seen c of
              None \<Rightarrow> None
            | Some (Inl err) \<Rightarrow> Some (Inl err)
            | Some (Inr (pixels, seen')) \<Rightarrow>
                scanHoles s detectable background cs seen'
                  (if 10 < length pixels then holes @ [pixels] else holes))
      else scanHoles s detectable background cs seen holes)"

definition scanOrder :: "reader \<Rightarrow> coord list" where
  "scanOrder s = concat (map (\<lambda>y. map (\<lambda>x. (int x, int y)) [0..<canvasWidth s]) [0..<canvasHeight s])"

text \<open>
  A hole with its centre and bounding rectangle. The source creates the component with
  \<open>centerX\<close>, \<open>centerY\<close> and \<open>rect\<close> null and fills them in for every component before it
  reads them, so its tests for null never fire and the fields are plain values here. A
  component has more than 10 pixels, and the coordinate sums are integers far below
  \<open>2^53\<close>.
\<close>

record boundingRect =
  rectX :: int
  rectY :: int
  rectWidth :: int
  rectHeight :: int

record holeComponent =
  pixels :: "coord list"
  centerX :: rat
  centerY :: rat
  rect :: boundingRect

definition minOf :: "int list \<Rightarrow> int" where
  \<comment> \<open>\<open>Math.min\<close> folded from \<open>Infinity\<close> over a list that is not empty\<close>
  "minOf xs = foldl min (hd xs) xs"

definition measureHole :: "coord list \<Rightarrow> holeComponent" where
  "measureHole ps =
     (let pixelCount = length ps;
          sumX = sum_list (map fst ps);
          sumY = sum_list (map snd ps);
          leftX = minOf (map fst ps);
          topY = minOf (map snd ps);
          rightX = foldl max 0 (map fst ps);
          bottomY = foldl max 0 (map snd ps)
      in \<lparr>pixels = ps,
          centerX = fl (of_int sumX / of_nat pixelCount),
          centerY = fl (of_int sumY / of_nat pixelCount),
          rect = \<lparr>rectX = leftX, rectY = topY,
                  rectWidth = rightX - leftX + 1, rectHeight = bottomY - topY + 1\<rparr>\<rparr>)"

text \<open>The clustering of the 12 holes into 6 groups by their \<open>centerX\<close>.\<close>

definition nearestCenter :: "rat list \<Rightarrow> rat \<Rightarrow> nat" where
  \<comment> \<open>the first index whose centre is at the least distance\<close>
  "nearestCenter centers cx =
     snd (foldl (\<lambda>(minDist, bestK) ki.
                   let dist = \<bar>fl (cx - centers ! ki)\<bar>
                   in (case minDist of
                         None \<Rightarrow> (Some dist, ki)
                       | Some m \<Rightarrow> if dist < m then (Some dist, ki) else (minDist, bestK)))
                (None, 0) [0..<6])"

definition recenter :: "holeComponent list \<Rightarrow> nat list \<Rightarrow> rat list \<Rightarrow> rat list" where
  "recenter holes assignments centers =
     map (\<lambda>ki. let members = map (\<lambda>(h, a). centerX h) (filter (\<lambda>(h, a). a = ki) (zip holes assignments));
                    sum = foldl (\<lambda>acc cx. fl (acc + cx)) 0 members;
                    count = length members
                in if 0 < count then fl (sum / of_nat count) else centers ! ki)
         [0..<6]"

fun kmeans :: "nat \<Rightarrow> holeComponent list \<Rightarrow> rat list \<Rightarrow> nat list \<Rightarrow> rat list \<times> nat list" where
  "kmeans 0 holes centers assignments = (centers, assignments)"
| "kmeans (Suc rounds) holes centers assignments =
     (let assignments' = map (\<lambda>h. nearestCenter centers (centerX h)) holes;
          centers' = recenter holes assignments' centers
      in if assignments' \<noteq> assignments then kmeans rounds holes centers' assignments'
         else (centers', assignments'))"

definition digitGroups :: "coord list list \<Rightarrow> holeComponent list list" where
  "digitGroups holes =
     (let ordered = sort_key centerX (map measureHole holes);
          componentCount = length ordered;
          centers0 = map (\<lambda>index. centerX (ordered ! (index * componentCount div 6))) [0..<6];
          (centers, assignments) = kmeans 10 ordered centers0 (replicate 12 0);
          groups = map (\<lambda>ki. map fst (filter (\<lambda>(h, a). a = ki) (zip ordered assignments))) [0..<6]
      in map snd (sort_key fst (zip centers groups)))"

text \<open>The sampling of one digit's segments around its two holes.\<close>

definition addToSeg :: "reader \<Rightarrow> nat list list \<Rightarrow> coord list \<Rightarrow> coord \<Rightarrow> coord list" where
  "addToSeg s detectable segment c =
     (if -1 < fst c \<and> fst c < int (canvasWidth s) \<and> -1 < snd c \<and> snd c < int (canvasHeight s)
         \<and> cell2 detectable (fst c) (snd c) = Some 1
      then segment @ [c] else segment)"

definition sampleAround ::
    "reader \<Rightarrow> nat list list \<Rightarrow> coord list \<Rightarrow> coord list \<Rightarrow> (coord \<Rightarrow> coord) \<Rightarrow> coord list" where
  \<comment> \<open>one segment's array after the \<open>forEach\<close> over a hole's pixels\<close>
  "sampleAround s detectable segment holePixels probe =
     foldl (\<lambda>seg c. addToSeg s detectable seg (probe c)) segment holePixels"

definition reach :: int where "reach = 7"

definition horizontalReach :: int where "horizontalReach = 6"

definition sampleSegments ::
    "reader \<Rightarrow> nat list list \<Rightarrow> holeComponent \<Rightarrow> holeComponent \<Rightarrow> (nat \<Rightarrow> coord list) \<Rightarrow> nat \<Rightarrow> coord list" where
  "sampleSegments s detectable upper lower segments =
     segments
       (0 := sampleAround s detectable (segments 0) (pixels upper) (\<lambda>(x, y). (x, y - horizontalReach)),
        5 := sampleAround s detectable (segments 5) (pixels upper) (\<lambda>(x, y). (x - reach, y)),
        1 := sampleAround s detectable (segments 1) (pixels upper) (\<lambda>(x, y). (x + reach, y)),
        6 := sampleAround s detectable (segments 6) (pixels upper) (\<lambda>(x, y). (x, y + horizontalReach)),
        4 := sampleAround s detectable (segments 4) (pixels lower) (\<lambda>(x, y). (x - reach, y)),
        2 := sampleAround s detectable (segments 2) (pixels lower) (\<lambda>(x, y). (x + reach, y)),
        3 := sampleAround s detectable (segments 3) (pixels lower) (\<lambda>(x, y). (x, y + horizontalReach)))"

definition dpTestFunction :: "reader \<Rightarrow> (jsnum, unit) matchFunction" where
  "dpTestFunction s =
     (\<lambda>v c matrix e. ((case v of None \<Rightarrow> False | Some x \<Rightarrow> jgt x (Num (floodFillDpThreshold s))), e))"

definition truthyNumber :: "jsnum \<Rightarrow> bool" where
  "truthyNumber v = (v \<noteq> NaN \<and> v \<noteq> Num 0)"

definition floodFillDecimalPoint :: "reader \<Rightarrow> int \<Rightarrow> int \<Rightarrow> (jserror + coord list) option" where
  "floodFillDecimalPoint s startX startY =
     (case generateBitmask truthyNumber s (grayArray s) (Some (dpTestFunction s)) None [(startX, startY)] () of
        None \<Rightarrow> None
      | Some (Inl err) \<Rightarrow> Some (Inl err)
      | Some (Inr (dpMask, e)) \<Rightarrow>
          Some (Inr (filter (\<lambda>(x, y). startX - 6 < x \<and> x < startX + 6 \<and> startY - 6 < y \<and> y < startY + 6)
                       (bitmaskToPixelArray dpMask))))"

definition rightmostX :: "(nat \<Rightarrow> coord list) \<Rightarrow> int" where
  "rightmostX segments = foldl max (-1) (map fst (concat (map segments [0..<7])))"

definition bottommostY :: "(nat \<Rightarrow> coord list) \<Rightarrow> int" where
  "bottommostY segments = foldl max (-1) (map snd (concat (map segments [0..<7])))"

text \<open>
  The body of the \<open>forEach\<close> over the ordered groups: what it does to the state for the
  group at position \<open>digit\<close>.
\<close>

definition locateDigit ::
    "nat list list \<Rightarrow> reader \<Rightarrow> holeComponent list \<Rightarrow> nat \<Rightarrow> (jserror + effect list \<times> reader) option" where
  "locateDigit detectable s holeGroup digit =
     (if length holeGroup \<noteq> 2 then Some (Inr ([Warn digit (length holeGroup)], s))
      else let ordered = sort_key centerY holeGroup;
               upper = ordered ! 0;
               lower = ordered ! 1;
               segments = sampleSegments s detectable upper lower (segmentSamples s digit);
               s' = s\<lparr>segmentSamples := (segmentSamples s)(digit := segments)\<rparr>
           in if rightmostX segments \<noteq> -1 \<and> bottommostY segments \<noteq> -1
              then (case floodFillDecimalPoint s' (rightmostX segments + 2) (bottommostY segments + 2) of
                      None \<Rightarrow> None
                    | Some (Inl err) \<Rightarrow> Some (Inl err)
                    | Some (Inr dpPixels) \<Rightarrow>
                        Some (Inr ([], s'\<lparr>segmentSamples := (segmentSamples s')(digit := segments(7 := dpPixels))\<rparr>)))
              else Some (Inr ([], s')))"

fun locateDigits ::
    "nat list list \<Rightarrow> reader \<Rightarrow> (holeComponent list \<times> nat) list \<Rightarrow> (jserror + effect list \<times> reader) option" where
  "locateDigits detectable s [] = Some (Inr ([], s))"
| "locateDigits detectable s ((holeGroup, digit) # rest) =
     (case locateDigit detectable s holeGroup digit of
        None \<Rightarrow> None
      | Some (Inl err) \<Rightarrow> Some (Inl err)
      | Some (Inr (es, s')) \<Rightarrow>
          (case locateDigits detectable s' rest of
             None \<Rightarrow> None
           | Some (Inl err) \<Rightarrow> Some (Inl err)
           | Some (Inr (es', s'')) \<Rightarrow> Some (Inr (es @ es', s''))))"

definition resetCalibration :: "reader \<Rightarrow> effect list \<times> reader" where
  "resetCalibration s =
     ([Post ReadStop],
      s\<lparr>backgroundMask := createPixelArray s 0,
        calibrated := False,
        calibrationImages := [],
        consistentOutputCount := 0,
        grayArray := createPixelArray s (Num 0),
        lastDisplay := None,
        litReference := createPixelArray s (Num 0),
        segmentSamples := noSamples,
        unlitReference := createPixelArray s (Num 0)\<rparr>)"

text \<open>
  The holes that \<open>determineLocations\<close> finds in a state whose reference grids are set:
  the background fill from the corner, then the scan.
\<close>

definition findHoles :: "reader \<Rightarrow> nat list list \<Rightarrow> (jserror + nat list list \<times> coord list list) option" where
  "findHoles s detectable =
     (case generateBitmask nonzero s detectable (Some (backgroundMatchFunction detectable)) None [] () of
        None \<Rightarrow> None
      | Some (Inl err) \<Rightarrow> Some (Inl err)
      | Some (Inr (backgroundPixels, e)) \<Rightarrow>
          (case scanHoles s detectable backgroundPixels (scanOrder s) {} [] of
             None \<Rightarrow> None
           | Some (Inl err) \<Rightarrow> Some (Inl err)
           | Some (Inr holes) \<Rightarrow> Some (Inr (backgroundPixels, holes))))"

text \<open>
  \<open>determineLocations\<close>. It clears the four grids, orders the two images, fills the
  reference grids and the difference grid, and looks for the holes. Reading a pixel of a
  calibration image that is missing throws; that happens at the first pixel, after the
  grids have been cleared. On a canvas without pixels no image is read, no hole is found,
  and calibration fails like with any number of holes other than 12.
\<close>

definition clearGrids :: "reader \<Rightarrow> reader" where
  "clearGrids s =
     s\<lparr>grayArray := createPixelArray s (Num 0),
       litReference := createPixelArray s (Num 0),
       unlitReference := createPixelArray s (Num 0),
       backgroundMask := createPixelArray s 0\<rparr>"

definition referenceGrids :: "reader \<Rightarrow> imageData \<Rightarrow> imageData \<Rightarrow> reader" where
  "referenceGrids s litImage unlitImage =
     s\<lparr>litReference := pixelGrid s (getPixelGrayValue s litImage),
       unlitReference := pixelGrid s (getPixelGrayValue s unlitImage),
       grayArray := pixelGrid s (difference s litImage unlitImage)\<rparr>"

definition calibrationFailed :: "reader \<Rightarrow> ((jserror + bool) \<times> effect list \<times> reader) option" where
  \<comment> \<open>\<open>alert(...); this.resetCalibration(); return false;\<close>\<close>
  "calibrationFailed s = (case resetCalibration s of (es, s') \<Rightarrow> Some (Inr False, Alert # es, s'))"

definition determineLocations :: "reader \<Rightarrow> ((jserror + bool) \<times> effect list \<times> reader) option" where
  "determineLocations s =
     (let s0 = clearGrids s
      in case getOrderedCalibrationImages s0 of
           (Some litImage, Some unlitImage) \<Rightarrow>
             (let detectable = detectablePixels s0 litImage unlitImage;
                  s1 = referenceGrids s0 litImage unlitImage
              in case findHoles s1 detectable of
                   None \<Rightarrow> None
                 | Some (Inl err) \<Rightarrow> Some (Inl err, [], s1)
                 | Some (Inr (backgroundPixels, holes)) \<Rightarrow>
                     (let s2 = s1\<lparr>backgroundMask := backgroundPixels\<rparr>
                      in if length holes \<noteq> 12 then calibrationFailed s2
                         else (case locateDigits detectable s2 (zip (digitGroups holes) [0..<6]) of
                                 None \<Rightarrow> None
                               | Some (Inl err) \<Rightarrow> Some (Inl err, [], s2)
                               | Some (Inr (es, s3)) \<Rightarrow> Some (Inr True, es, s3))))
         | _ \<Rightarrow>
             if canvasHeight s0 = 0 \<or> canvasWidth s0 = 0 then calibrationFailed s0
             else Some (Inl TypeError, [], s0))"

text \<open>
  The qualifying hole components that \<open>determineLocations\<close> finds in the two calibration
  images of a state.
\<close>

definition calibrationHoles :: "reader \<Rightarrow> coord list list option" where
  "calibrationHoles s =
     (let s0 = clearGrids s
      in case getOrderedCalibrationImages s0 of
           (Some litImage, Some unlitImage) \<Rightarrow>
             (case findHoles (referenceGrids s0 litImage unlitImage)
                     (detectablePixels s0 litImage unlitImage) of
                Some (Inr (backgroundPixels, holes)) \<Rightarrow> Some holes
              | _ \<Rightarrow> None)
         | _ \<Rightarrow> None)"

definition attemptCalibration :: "reader \<Rightarrow> ((jserror + bool) \<times> effect list \<times> reader) option" where
  "attemptCalibration s =
     (case determineLocations s of
        None \<Rightarrow> None
      | Some (Inr True, es, s') \<Rightarrow> Some (Inr True, es @ [Post ReadStart], s'\<lparr>calibrated := True\<rparr>)
      | Some (outcome, es, s') \<Rightarrow> Some (outcome, es, s'))"

text \<open>
  \<open>captureCalibrationImage\<close>, given the frame that \<open>captureImageData\<close> returns. An
  exception of the automatic calibration attempt leaves through this method.
\<close>

definition captureCalibrationImage ::
    "reader \<Rightarrow> imageData \<Rightarrow> bool \<Rightarrow> ((jserror + unit) \<times> effect list \<times> reader) option" where
  "captureCalibrationImage s frame autoAttemptCalibration =
     (let initialLength = length (calibrationImages s)
      in if initialLength = 2
         then (case resetCalibration s of
                 (es, s') \<Rightarrow> Some (Inr (), es, s'\<lparr>calibrationImages := calibrationImages s' @ [frame]\<rparr>))
         else if initialLength < 2
         then (let s' = s\<lparr>calibrationImages := calibrationImages s @ [frame]\<rparr>
               in if length (calibrationImages s') = 2 \<and> autoAttemptCalibration
                  then (case attemptCalibration s' of
                          None \<Rightarrow> None
                        | Some (Inl err, es, s'') \<Rightarrow> Some (Inl err, es, s'')
                        | Some (Inr success, es, s'') \<Rightarrow> Some (Inr (), es, s''))
                  else Some (Inr (), [], s'))
         else Some (Inr (), [], s))"

text \<open>The reader's listener for the messages of the timing worker.\<close>

definition onWorkerMessage :: "reader \<Rightarrow> imageData \<Rightarrow> effect list \<times> reader" where
  \<comment> \<open>for the message \<open>read\<close>, the only one the worker sends\<close>
  "onWorkerMessage s frame = (if \<not> calibrated s then ([Post ReadStop], s) else readDisplays s frame)"

text \<open>
  The calls a caller can make on a reader, each with the frame that the camera shows at
  that moment where the call captures one, and a run of such calls. An exception ends
  the call, not the reader.
\<close>

datatype call =
    CaptureCalibrationImage imageData bool
  | AttemptCalibration
  | ResetCalibration
  | ReadDisplays imageData
  | Refine imageData
  | WorkerMessage imageData

fun perform :: "reader \<Rightarrow> call \<Rightarrow> reader option" where
  "perform s (CaptureCalibrationImage frame auto) =
     map_option (\<lambda>r. snd (snd r)) (captureCalibrationImage s frame auto)"
| "perform s AttemptCalibration = map_option (\<lambda>r. snd (snd r)) (attemptCalibration s)"
| "perform s ResetCalibration = Some (snd (resetCalibration s))"
| "perform s (ReadDisplays frame) = Some (snd (readDisplays s frame))"
| "perform s (Refine frame) = Some (refine s frame)"
| "perform s (WorkerMessage frame) = Some (snd (onWorkerMessage s frame))"

fun performAll :: "reader \<Rightarrow> call list \<Rightarrow> reader option" where
  "performAll s [] = Some s"
| "performAll s (c # cs) = (case perform s c of None \<Rightarrow> None | Some s' \<Rightarrow> performAll s' cs)"

section \<open>Notions of the specification\<close>

text \<open>The coordinates at which a grid has a value.\<close>

definition cells :: "'a list list \<Rightarrow> coord set" where
  "cells grid = {c. cell2 grid (fst c) (snd c) \<noteq> None}"

definition rowLimit :: "'a list list \<Rightarrow> nat" where
  "rowLimit grid = foldr (\<lambda>row m. max (length row) m) grid 0"

definition inBoundsOnly :: "('a, 'e) matchFunction \<Rightarrow> 'a list list \<Rightarrow> bool" where
  "inBoundsOnly tf grid = (\<forall>x y e. cell2 grid x y = None \<longrightarrow> \<not> fst (tf None (x, y) grid e))"

definition fillMeasure :: "'a list list \<Rightarrow> 'e fill \<Rightarrow> nat" where
  "fillMeasure grid st = length (queue st) + card (cells grid - visited st)"

text \<open>What \<open>locateDigit\<close> leaves alone: every field but \<open>segmentSamples\<close>.\<close>

definition sameButSamples :: "reader \<Rightarrow> reader \<Rightarrow> bool" where
  "sameButSamples s s' = (s' = s\<lparr>segmentSamples := segmentSamples s'\<rparr>)"

text \<open>
  The eight neighbours of a coordinate, and the coordinates that the fill accepts under a
  test that has no state: those with a row whose value there passes the test.
\<close>

definition neighbours :: "coord \<Rightarrow> coord list" where
  "neighbours c = map (\<lambda>d. (fst c + fst d, snd c + snd d)) directions"

definition admits :: "('a option \<Rightarrow> coord \<Rightarrow> 'a list list \<Rightarrow> bool) \<Rightarrow> 'a list list \<Rightarrow> coord \<Rightarrow> bool" where
  "admits incl grid c =
     (case elemAt grid (snd c) of None \<Rightarrow> False | Some row \<Rightarrow> incl (elemAt row (fst c)) c grid)"

definition pureTest :: "('a option \<Rightarrow> coord \<Rightarrow> 'a list list \<Rightarrow> bool) \<Rightarrow> ('a, unit) matchFunction" where
  "pureTest incl = (\<lambda>v c matrix e. (incl v c matrix, e))"

text \<open>
  What the fill marks: the coordinates at the end of a path of one or more steps that
  starts at a seed, each step going to a neighbour that the fill accepts. The seed itself
  need not be accepted, and it is among them only if such a path leads back to it.
\<close>

inductive_set floodReach ::
    "('a option \<Rightarrow> coord \<Rightarrow> 'a list list \<Rightarrow> bool) \<Rightarrow> 'a list list \<Rightarrow> coord set \<Rightarrow> coord set"
  for incl :: "'a option \<Rightarrow> coord \<Rightarrow> 'a list list \<Rightarrow> bool" and grid :: "'a list list" and seeds :: "coord set"
where
  first: "s \<in> seeds \<Longrightarrow> n \<in> set (neighbours s) \<Longrightarrow> admits incl grid n
            \<Longrightarrow> n \<in> floodReach incl grid seeds"
| onward: "c \<in> floodReach incl grid seeds \<Longrightarrow> n \<in> set (neighbours c) \<Longrightarrow> admits incl grid n
            \<Longrightarrow> n \<in> floodReach incl grid seeds"

text \<open>
  The specification's words, "the predicate-reachable set from the seeds under
  8-connectivity": the coordinates connected to a seed through in-bounds coordinates that
  satisfy the predicate, a seed that satisfies it included.
\<close>

inductive_set predicateReachable ::
    "('a option \<Rightarrow> coord \<Rightarrow> 'a list list \<Rightarrow> bool) \<Rightarrow> 'a list list \<Rightarrow> coord set \<Rightarrow> coord set"
  for incl :: "'a option \<Rightarrow> coord \<Rightarrow> 'a list list \<Rightarrow> bool" and grid :: "'a list list" and seeds :: "coord set"
where
  seed: "s \<in> seeds \<Longrightarrow> s \<in> cells grid \<Longrightarrow> admits incl grid s
            \<Longrightarrow> s \<in> predicateReachable incl grid seeds"
| step: "c \<in> predicateReachable incl grid seeds \<Longrightarrow> n \<in> set (neighbours c) \<Longrightarrow> n \<in> cells grid
            \<Longrightarrow> admits incl grid n \<Longrightarrow> n \<in> predicateReachable incl grid seeds"

definition indicatorGrid :: "nat \<Rightarrow> nat \<Rightarrow> coord set \<Rightarrow> nat list list" where
  \<comment> \<open>the bitmap of the given height and width that has 1 exactly at the coordinates of a set\<close>
  "indicatorGrid h w M = map (\<lambda>y. map (\<lambda>x. if (int x, int y) \<in> M then 1 else 0) [0..<w]) [0..<h]"

definition upToThree :: "nat option \<Rightarrow> coord \<Rightarrow> nat list list \<Rightarrow> bool" where
  \<comment> \<open>an inclusion predicate that looks at the coordinate only\<close>
  "upToThree v c matrix = (0 \<le> fst c \<and> fst c \<le> 3)"

definition isZero :: "nat option \<Rightarrow> coord \<Rightarrow> nat list list \<Rightarrow> bool" where
  \<comment> \<open>an inclusion predicate: the value is there and is 0\<close>
  "isZero v c matrix = (v = Some 0)"

text \<open>The invariant of the loop of \<open>generateBitmask\<close> under a test without state.\<close>

definition fillInvariant ::
    "('a option \<Rightarrow> coord \<Rightarrow> 'a list list \<Rightarrow> bool) \<Rightarrow> 'a list list \<Rightarrow> coord set \<Rightarrow> nat \<Rightarrow> nat
       \<Rightarrow> coord set \<Rightarrow> unit fill \<Rightarrow> bool" where
  "fillInvariant incl grid seeds h w pending st =
     (let marked = visited st \<inter> {c. admits incl grid c}
      in result st = indicatorGrid h w marked
         \<and> set (queue st) \<subseteq> seeds \<union> marked
         \<and> marked \<subseteq> floodReach incl grid seeds
         \<and> (\<forall>c \<in> seeds \<union> marked. c \<notin> set (queue st) \<longrightarrow> c \<notin> pending \<longrightarrow>
               (\<forall>n \<in> set (neighbours c). elemAt grid (snd n) \<noteq> None \<longrightarrow> n \<in> visited st)))"

text \<open>
  The test of \<open>floodFillDecimalPoint\<close> as a predicate, and the pixels that the decimal
  point of a digit is made of: those that the fill reaches from the seed two pixels to
  the right of and below the segments' samples, less than 6 pixels away from the seed in
  each axis.
\<close>

definition aboveThreshold :: "rat \<Rightarrow> jsnum option \<Rightarrow> coord \<Rightarrow> jsnum list list \<Rightarrow> bool" where
  "aboveThreshold threshold v c matrix = (case v of None \<Rightarrow> False | Some x \<Rightarrow> jgt x (Num threshold))"

definition decimalPointRegion :: "jsnum list list \<Rightarrow> rat \<Rightarrow> (nat \<Rightarrow> coord list) \<Rightarrow> coord set" where
  "decimalPointRegion grid threshold segments =
     (let startX = rightmostX segments + 2; startY = bottommostY segments + 2
      in {c \<in> floodReach (aboveThreshold threshold) grid {(startX, startY)}.
            startX - 6 < fst c \<and> fst c < startX + 6 \<and> startY - 6 < snd c \<and> snd c < startY + 6})"


section \<open>Rounding\<close>

lemma fl_seven_tenths: "fl (7 / 10) = 3152519739159347 / 4503599627370496"
  by code_simp

lemma bitlength_nonneg: "0 \<le> bitlength n"
  by (induction n rule: bitlength.induct) (subst bitlength.simps, simp)

lemma bitlength_pos: "0 < n \<Longrightarrow> 1 \<le> bitlength n"
  using bitlength_nonneg [of "n div 2"] by (subst bitlength.simps) simp

lemma bitlength_bounds:
  "0 < n \<Longrightarrow> 2 ^ nat (bitlength n - 1) \<le> n \<and> n < 2 ^ nat (bitlength n)"
proof (induction n rule: bitlength.induct)
  case (1 n)
  have b: "bitlength n = 1 + bitlength (n div 2)" using 1(2) by (subst bitlength.simps) simp
  show ?case
  proof (cases "n div 2 = 0")
    case True
    with 1(2) have "n = 1" by presburger
    moreover have "bitlength 1 = 1"
      by (subst bitlength.simps, simp, subst bitlength.simps, simp)
    ultimately show ?thesis by simp
  next
    case False
    with 1(2) have pos: "0 < n div 2" by presburger
    with 1 have ih: "2 ^ nat (bitlength (n div 2) - 1) \<le> n div 2"
      "n div 2 < 2 ^ nat (bitlength (n div 2))" by auto
    from bitlength_pos [OF pos] have n1: "nat (bitlength (n div 2)) = Suc (nat (bitlength (n div 2) - 1))"
      by simp
    have "(2::int) ^ nat (bitlength n - 1) = 2 * 2 ^ nat (bitlength (n div 2) - 1)"
      unfolding b using n1 by simp
    also have "\<dots> \<le> 2 * (n div 2)" using ih by simp
    also have "\<dots> \<le> n" by presburger
    finally have lo: "2 ^ nat (bitlength n - 1) \<le> n" .
    have "n < 2 * (n div 2) + 2" by presburger
    also have "\<dots> \<le> 2 * 2 ^ nat (bitlength (n div 2))" using ih by simp
    also have "\<dots> = 2 ^ nat (bitlength n)"
      unfolding b using bitlength_nonneg [of "n div 2"] by (simp add: nat_add_distrib)
    finally show ?thesis using lo by simp
  qed
qed

lemma pow2_power_int: "pow2 k = power_int 2 k"
  by (simp add: pow2_def power_int_def power_one_over inverse_eq_divide)

lemma pow2_pos: "0 < pow2 k"
  by (simp add: pow2_def)

lemma pow2_add: "pow2 (a + b) = pow2 a * pow2 b"
  by (simp add: pow2_power_int power_int_add)

lemma pow2_ilog2_le:
  assumes "0 < a"
  shows "pow2 (ilog2 a) \<le> a"
proof (cases "1 \<le> a")
  case True
  then have pos: "0 < \<lfloor>a\<rfloor>" by simp
  have "pow2 (ilog2 a) = of_int (2 ^ nat (bitlength \<lfloor>a\<rfloor> - 1))"
    using True bitlength_pos [OF pos] by (simp add: ilog2_def pow2_def)
  also have "\<dots> \<le> of_int \<lfloor>a\<rfloor>"
    using bitlength_bounds [OF pos] by (simp only: of_int_le_iff)
  also have "\<dots> \<le> a" by simp
  finally show ?thesis .
next
  case False
  define c where "c = \<lceil>1 / a\<rceil>"
  have "1 < 1 / a" using False assms by simp
  then have c2: "2 \<le> c" unfolding c_def by (simp add: le_ceiling_iff)
  then have pos: "0 < c - 1" by simp
  have "1 / a \<le> of_int c" unfolding c_def by (rule le_of_int_ceiling)
  also have "\<dots> \<le> of_int (2 ^ nat (bitlength (c - 1)))"
    using bitlength_bounds [OF pos] by (simp only: of_int_le_iff) simp
  finally have "1 / a \<le> 2 ^ nat (bitlength (c - 1))" by simp
  then have "1 / 2 ^ nat (bitlength (c - 1)) \<le> a"
    using assms by (simp add: field_simps)
  moreover have "pow2 (ilog2 a) = 1 / 2 ^ nat (bitlength (c - 1))"
    using False bitlength_pos [OF pos] by (simp add: ilog2_def pow2_def c_def)
  ultimately show ?thesis by simp
qed

lemma round_choice_near:
  fixes f m :: rat
  assumes "f \<le> m" "m < f + 1"
  shows "\<bar>(if m - f < 1 / 2 then f else if 1 / 2 < m - f then f + 1 else if e then f else f + 1) - m\<bar>
           \<le> 1 / 2"
  using assms by (auto simp: abs_if)

lemma roundHalfEven_near: "\<bar>of_int (roundHalfEven m) - m\<bar> \<le> 1 / 2"
proof -
  have f: "of_int \<lfloor>m\<rfloor> \<le> m" "m < of_int \<lfloor>m\<rfloor> + 1" by linarith+
  have "(of_int (roundHalfEven m) :: rat) =
          (if m - of_int \<lfloor>m\<rfloor> < 1 / 2 then of_int \<lfloor>m\<rfloor>
           else if 1 / 2 < m - of_int \<lfloor>m\<rfloor> then of_int \<lfloor>m\<rfloor> + 1
           else if even \<lfloor>m\<rfloor> then of_int \<lfloor>m\<rfloor> else of_int \<lfloor>m\<rfloor> + 1)"
    by (simp add: roundHalfEven_def Let_def)
  then show ?thesis using round_choice_near[OF f] by simp
qed

lemma fl_near: "\<bar>fl x - x\<bar> \<le> \<bar>x\<bar> / 2 ^ 53"
proof (cases "x = 0")
  case True
  then show ?thesis by (simp add: fl_def)
next
  case False
  define q where "q = pow2 (ilog2 \<bar>x\<bar> - 52)"
  define r where "r = roundHalfEven (\<bar>x\<bar> / q)"
  have qpos: "0 < q" by (simp add: q_def pow2_pos)
  have q52: "q * 2 ^ 52 = pow2 (ilog2 \<bar>x\<bar>)"
  proof -
    have "pow2 (ilog2 \<bar>x\<bar>) = pow2 ((ilog2 \<bar>x\<bar> - 52) + 52)" by simp
    also have "\<dots> = q * pow2 52" unfolding q_def by (rule pow2_add)
    finally show ?thesis by (simp add: pow2_def)
  qed
  have qle: "q * 2 ^ 52 \<le> \<bar>x\<bar>" using pow2_ilog2_le[of "\<bar>x\<bar>"] False q52 by simp
  have flx: "fl x = sgn x * of_int r * q" using False by (simp add: fl_def Let_def q_def r_def)
  have "x = sgn x * (\<bar>x\<bar> / q) * q" using qpos by (simp add: sgn_mult_abs) 
  then have "fl x - x = sgn x * q * (of_int r - \<bar>x\<bar> / q)"
    unfolding flx by (simp add: algebra_simps)
  then have "\<bar>fl x - x\<bar> = q * \<bar>of_int r - \<bar>x\<bar> / q\<bar>"
    using False qpos by (simp add: abs_mult abs_sgn_eq)
  also have "\<dots> \<le> q * (1 / 2)"
    using roundHalfEven_near[of "\<bar>x\<bar> / q"] qpos unfolding r_def by (intro mult_left_mono) auto
  also have "\<dots> \<le> \<bar>x\<bar> / 2 ^ 53" using qle by simp
  finally show ?thesis .
qed

lemma roundHalfEven_of_int [simp]: "roundHalfEven (of_int z) = z"
  by (simp add: roundHalfEven_def)

lemma fl_of_int:
  assumes "\<bar>n\<bar> < 2 ^ 53"
  shows "fl (of_int n) = of_int n"
proof (cases "n = 0")
  case True
  then show ?thesis by (simp add: fl_def)
next
  case False
  define a :: rat where "a = \<bar>of_int n\<bar>"
  define e where "e = ilog2 a"
  have apos: "0 < a" using False by (simp add: a_def)
  have "a = of_int \<bar>n\<bar>" by (simp add: a_def)
  also have "\<dots> < of_int (2 ^ 53)" using assms by (simp only: of_int_less_iff)
  finally have alt: "a < 2 ^ 53" by simp
  have e52: "e \<le> 52"
  proof (rule ccontr)
    assume "\<not> e \<le> 52"
    then have "53 \<le> nat e" "0 \<le> e" by simp_all
    then have "(2::rat) ^ 53 \<le> 2 ^ nat e" by (intro power_increasing) simp_all
    also have "\<dots> = pow2 e" using \<open>0 \<le> e\<close> by (simp add: pow2_def)
    also have "\<dots> \<le> a" unfolding e_def by (rule pow2_ilog2_le [OF apos])
    finally show False using alt by simp
  qed
  define k where "k = nat (52 - e)"
  have q: "pow2 (e - 52) = 1 / 2 ^ k"
  proof (cases "e = 52")
    case True
    then show ?thesis by (simp add: pow2_def k_def)
  next
    case False
    with e52 have "e - 52 < 0" by simp
    then show ?thesis by (simp add: pow2_def k_def)
  qed
  have m: "a / pow2 (e - 52) = of_int (\<bar>n\<bar> * 2 ^ k)" by (simp add: q a_def)
  have "fl (of_int n) = sgn (of_int n) * of_int (roundHalfEven (a / pow2 (e - 52))) * pow2 (e - 52)"
    using False by (simp add: fl_def Let_def a_def e_def)
  also have "\<dots> = sgn (of_int n) * a"
    unfolding m roundHalfEven_of_int by (simp add: q a_def)
  also have "\<dots> = of_int n" by (simp add: a_def sgn_mult_abs)
  finally show ?thesis .
qed

lemma fl_numeral:
  "numeral k < (9007199254740992::int) \<Longrightarrow> fl (numeral k) = numeral k"
  "numeral k < (9007199254740992::int) \<Longrightarrow> fl (- numeral k) = - numeral k"
  "fl 0 = 0" "fl 1 = 1"
  using fl_of_int [of "numeral k"] fl_of_int [of "- numeral k"] fl_of_int [of 0] fl_of_int [of 1]
  by simp_all

lemma fl_bounds:
  assumes "0 \<le> x"
  shows "fl x * 9007199254740992 \<le> x * 9007199254740993"
    and "x * 9007199254740991 \<le> fl x * 9007199254740992"
proof -
  have "\<bar>fl x - x\<bar> \<le> x / 2 ^ 53" using fl_near [of x] assms by simp
  then have "\<bar>fl x - x\<bar> \<le> x / 9007199254740992" by simp
  then have "fl x - x \<le> x / 9007199254740992" "x - fl x \<le> x / 9007199254740992" by linarith+
  then show "fl x * 9007199254740992 \<le> x * 9007199254740993"
    and "x * 9007199254740991 \<le> fl x * 9007199254740992"
    by (simp_all add: field_simps)
qed

lemma fl_separated:
  assumes "0 \<le> b" "b * 9007199254740993 < a * 9007199254740991"
  shows "fl b < fl a" "fl b \<le> fl a" "\<not> fl a \<le> fl b"
proof -
  have "0 \<le> a" using assms by linarith
  from fl_bounds [OF assms(1)] fl_bounds [OF this] assms(2)
  show "fl b < fl a" by linarith
  then show "fl b \<le> fl a" "\<not> fl a \<le> fl b" by simp_all
qed

lemma highLimit_bounds:
  assumes "n < 2 ^ 32"
  shows "7 * int n < 10 * k \<Longrightarrow> highLimit n < k"
    and "10 * k < 7 * int n \<Longrightarrow> k \<le> highLimit n"
proof -
  define N :: rat where "N = of_nat n"
  define x :: rat where "x = N * (3152519739159347 / 4503599627370496)"
  have hl: "highLimit n = \<lfloor>fl x\<rfloor>" by (simp add: highLimit_def fl_seven_tenths x_def N_def)
  have "(of_nat n :: rat) < of_nat (2 ^ 32)" using assms by (simp only: of_nat_less_iff)
  then have nb: "N < 4294967296" by (simp add: N_def)
  have n0: "0 \<le> N" by (simp add: N_def)
  have xeq: "x = 7 / 10 * N - N / 22517998136852480" by (simp add: x_def)
  have x0: "0 \<le> x" using n0 by (simp add: x_def)
  have "\<bar>fl x - x\<bar> \<le> x / 2 ^ 53" using fl_near[of x] x0 by simp
  then have "\<bar>fl x - x\<bar> \<le> x / 9007199254740992" by simp
  then have near: "fl x - x \<le> x / 9007199254740992" "x - fl x \<le> x / 9007199254740992"
    by linarith+
  { assume "7 * int n < 10 * k"
    then have "7 * int n + 1 \<le> 10 * k" by simp
    then have "(of_int (7 * int n + 1) :: rat) \<le> of_int (10 * k)" by (simp only: of_int_le_iff)
    then have k: "7 * N + 1 \<le> 10 * of_int k" by (simp add: N_def)
    have "fl x < of_int k" using near k nb n0 xeq by linarith
    then show "highLimit n < k" unfolding hl by (simp add: floor_less_iff) }
  { assume "10 * k < 7 * int n"
    then have "10 * k + 1 \<le> 7 * int n" by simp
    then have "(of_int (10 * k + 1) :: rat) \<le> of_int (7 * int n)" by (simp only: of_int_le_iff)
    then have k: "10 * of_int k + 1 \<le> 7 * N" by (simp add: N_def)
    have "of_int k \<le> fl x" using near k nb n0 xeq by linarith
    then show "k \<le> highLimit n" unfolding hl by (simp add: le_floor_iff) }
qed

lemmas fl_eval = fl_numeral fl_separated

section \<open>The stability tracker\<close>

lemma feed_append:
  "feed s (rs @ rs') = (case feed s rs of (es, s') \<Rightarrow> (case feed s' rs' of (es', s'') \<Rightarrow> (es @ es', s'')))"
  by (induction rs arbitrary: s) (auto split: prod.splits)

lemma getPixelGrayValue_tracker [simp]:
  "getPixelGrayValue (s\<lparr>consistentOutputCount := c\<rparr>) = getPixelGrayValue s"
  "getPixelGrayValue (s\<lparr>lastDisplay := l\<rparr>) = getPixelGrayValue s"
  by (intro ext, simp add: getPixelGrayValue_def cong: option.case_cong if_cong)+

lemma isPixelLit_tracker [simp]:
  "isPixelLit (s\<lparr>consistentOutputCount := c\<rparr>) = isPixelLit s"
  "isPixelLit (s\<lparr>lastDisplay := l\<rparr>) = isPixelLit s"
  by (intro ext, simp add: isPixelLit_def cong: option.case_cong if_cong)+

lemma pixelLit_tracker [simp]:
  "pixelLit (s\<lparr>consistentOutputCount := c\<rparr>) = pixelLit s"
  "pixelLit (s\<lparr>lastDisplay := l\<rparr>) = pixelLit s"
  by (intro ext, simp add: pixelLit_def cong: option.case_cong if_cong)+

lemma ambientRow_tracker [simp]:
  "ambientRow (s\<lparr>consistentOutputCount := c\<rparr>) = ambientRow s"
  "ambientRow (s\<lparr>lastDisplay := l\<rparr>) = ambientRow s"
  by (intro ext, simp add: ambientRow_def cong: option.case_cong if_cong)+

lemma decodeDisplays_tracker [simp]:
  "decodeDisplays (s\<lparr>consistentOutputCount := c\<rparr>) = decodeDisplays s"
  "decodeDisplays (s\<lparr>lastDisplay := l\<rparr>) = decodeDisplays s"
  by (intro ext, simp add: decodeDisplays_def estimateAmbientOffset_def cong: option.case_cong if_cong)+

lemma notifyDisplay_decode [simp]: "decodeDisplays (snd (notifyDisplay s r)) = decodeDisplays s"
  by (simp add: notifyDisplay_def)

lemma feed_decode [simp]: "decodeDisplays (snd (feed s rs)) = decodeDisplays s"
proof (induction rs arbitrary: s)
  case Nil show ?case by simp
next
  case (Cons r rs)
  have "snd (feed s (r # rs)) = snd (feed (snd (notifyDisplay s r)) rs)"
    by (simp split: prod.splits)
  then show ?case using Cons[of "snd (notifyDisplay s r)"] by simp
qed

lemma readAll_feed: "readAll s fs = feed s (map (decodeDisplays s) fs)"
proof (induction fs arbitrary: s)
  case Nil show ?case by simp
next
  case (Cons f fs)
  have "decodeDisplays (snd (notifyDisplay s (decodeDisplays s f))) = decodeDisplays s" by simp
  then show ?case using Cons[of "snd (notifyDisplay s (decodeDisplays s f))"]
    by (auto simp: readDisplays_def split: prod.splits)
qed

lemma feed_state:
  assumes "lastDisplay s = None" "rs \<noteq> []"
  shows "lastDisplay (snd (feed s rs)) = Some (last rs) \<and>
         Suc (consistentOutputCount (snd (feed s rs))) = trailing (last rs) rs"
  using assms(2)
proof (induction rs rule: rev_induct)
  case Nil then show ?case by simp
next
  case (snoc r rs)
  show ?case
  proof (cases "rs = []")
    case True
    then show ?thesis using assms(1) by (simp add: notifyDisplay_def trailing_def)
  next
    case False
    with snoc have ih: "lastDisplay (snd (feed s rs)) = Some (last rs)"
      "Suc (consistentOutputCount (snd (feed s rs))) = trailing (last rs) rs" by auto
    from False obtain rs' x where rs: "rs = rs' @ [x]" by (meson rev_exhaust)
    show ?thesis using ih unfolding rs
      by (auto simp: feed_append notifyDisplay_def trailing_def split: prod.splits)
  qed
qed

lemma decode_blank:
  "decodeDisplays (newReader 0 0 90 40 True) \<lparr>data = []\<rparr> = ''      ''"
  by code_simp

text \<open>
  Claim C1, as the code has it. A tick whose decoded string differs from the one before
  fires \<open>change\<close>. A tick fires \<open>output\<close> exactly when its string is the one of the four
  ticks before it and not of a fifth: the stable value is reported once, at the fifth
  consecutive tick that decodes it (the tick that introduced it and four repeats), and at
  no later tick of the same run.
\<close>

theorem stable_output_after_five:
  assumes "lastDisplay s = None"
  shows "fst (readDisplays (snd (readAll s fs)) f) =
           (let rs = map (decodeDisplays s) fs; r = decodeDisplays s f
            in if rs = [] \<or> last rs \<noteq> r then [Change r]
               else if trailing r rs = 4 then [Output r] else [])"
proof (cases "fs = []")
  case True
  then show ?thesis using assms by (simp add: readDisplays_def notifyDisplay_def)
next
  case False
  let ?rs = "map (decodeDisplays s) fs"
  have ne: "?rs \<noteq> []" using False by simp
  from feed_state[OF assms ne] False show ?thesis
    by (auto simp: readAll_feed readDisplays_def notifyDisplay_def Let_def)
qed

theorem stable_output_after_five_witness:
  "lastDisplay (newReader 0 0 90 40 True) = None \<and>
   fst (readDisplays
          (snd (readAll (newReader 0 0 90 40 True)
                  [\<lparr>data = []\<rparr>, \<lparr>data = []\<rparr>, \<lparr>data = []\<rparr>, \<lparr>data = []\<rparr>]))
          \<lparr>data = []\<rparr>) = [Output ''      '']"
proof -
  have h: "lastDisplay (newReader 0 0 90 40 True) = None" by (simp add: newReader_def)
  show ?thesis
    using h stable_output_after_five [OF h,
        of "[\<lparr>data = []\<rparr>, \<lparr>data = []\<rparr>, \<lparr>data = []\<rparr>, \<lparr>data = []\<rparr>]" "\<lparr>data = []\<rparr>"]
    by (simp add: decode_blank trailing_def)
qed

text \<open>
  The sequence of claim C1: four ticks decoding \<open>A\<close> and one decoding \<open>B\<close> fire the two
  \<open>change\<close> events and no \<open>output\<close> event; the counter is 3 only after the fourth \<open>A\<close>.
\<close>

theorem four_ticks_fire_no_output:
  "fst (feed (newReader 0 0 90 40 True) [''A'', ''A'', ''A'', ''A'', ''B''])
     = [Change ''A'', Change ''B''] \<and>
   consistentOutputCount
     (snd (feed (newReader 0 0 90 40 True) [''A'', ''A'', ''A'', ''A''])) = 3 \<and>
   fst (feed (newReader 0 0 90 40 True) [''A'', ''A'', ''A'', ''A'', ''A'', ''B''])
     = [Change ''A'', Output ''A'', Change ''B'']"
  by (simp add: newReader_def notifyDisplay_def)

section \<open>The segment countdown\<close>

lemma scanSegment_iff:
  "scanSegment lit t ps \<longleftrightarrow> 1 \<le> t \<and> t \<le> int (length (filter lit ps))"
proof (induction ps arbitrary: t)
  case Nil
  show ?case by simp
next
  case (Cons p ps)
  show ?case
  proof (cases "lit p")
    case False
    then show ?thesis by (simp add: Cons)
  next
    case True
    show ?thesis
    proof (cases "t = 1")
      case True
      with \<open>lit p\<close> show ?thesis by simp
    next
      case False
      with \<open>lit p\<close> have "scanSegment lit t (p # ps) = scanSegment lit (t - 1) ps" by simp
      also have "\<dots> \<longleftrightarrow> 1 \<le> t - 1 \<and> t - 1 \<le> int (length (filter lit ps))" by (rule Cons)
      also have "\<dots> \<longleftrightarrow> 1 \<le> t \<and> t \<le> int (length (filter lit (p # ps)))"
        using False \<open>lit p\<close> by (simp only: filter.simps if_True list.size) linarith
      finally show ?thesis .
    qed
  qed
qed

lemma segmentOn_iff:
  "segmentOn lit ps \<longleftrightarrow> 1 \<le> length ps div 2 \<and> length ps div 2 \<le> length (filter lit ps)"
proof -
  have "int (length ps) div 2 = int (length ps div 2)" by (simp add: zdiv_int)
  then show ?thesis unfolding segmentOn_def scanSegment_iff by (simp only: of_nat_le_iff, simp)
qed

lemma readSegment_eq:
  "readSegment lit ds acc g =
     (fst acc + (if g \<noteq> 7 \<and> segmentOn lit (ds g) then 2 ^ g else 0),
      snd acc \<or> (g = 7 \<and> segmentOn lit (ds g)))"
  by (cases acc) (simp add: readSegment_def)

lemma foldl_readSegment:
  "foldl (readSegment lit ds) acc gs =
     (fst acc + sum_list (map (\<lambda>g. if g \<noteq> 7 \<and> segmentOn lit (ds g) then 2 ^ g else 0) gs),
      snd acc \<or> (\<exists>g \<in> set gs. g = 7 \<and> segmentOn lit (ds g)))"
proof (induction gs arbitrary: acc)
  case Nil
  then show ?case by simp
next
  case (Cons g gs)
  show ?case by (simp add: Cons) (auto simp add: readSegment_eq)
qed

lemma horner_upt:
  "horner_sum of_bool (2::nat) (map P [0..<n]) = sum_list (map (\<lambda>g. of_bool (P g) * 2 ^ g) [0..<n])"
  by (induction n) (simp_all add: horner_sum_append)

lemma digitBitmask_horner:
  "fst (digitBitmask lit ds) = horner_sum of_bool 2 (map (\<lambda>g. segmentOn lit (ds g)) [0..<7])"
proof -
  have split: "[0..<8] = [0..<7] @ [7::nat]" by (simp add: upt_rec)
  have meq: "map (\<lambda>g. if g \<noteq> 7 \<and> segmentOn lit (ds g) then 2 ^ g else (0::nat)) [0..<7]
          = map (\<lambda>g. of_bool (segmentOn lit (ds g)) * 2 ^ g) [0..<7]"
    by (intro map_cong refl) auto
  have "fst (digitBitmask lit ds)
          = sum_list (map (\<lambda>g. if g \<noteq> 7 \<and> segmentOn lit (ds g) then 2 ^ g else (0::nat)) [0..<7])"
    unfolding digitBitmask_def foldl_readSegment split
    by (simp only: map_append sum_list_append fst_conv list.map) simp
  then show ?thesis unfolding meq horner_upt .
qed

lemma digitBitmask_snd: "snd (digitBitmask lit ds) = segmentOn lit (ds 7)"
proof -
  have split: "[0..<8] = [0..<7] @ [7::nat]" by (simp add: upt_rec)
  show ?thesis unfolding digitBitmask_def foldl_readSegment split by auto
qed

text \<open>
  Claim C2, as the code has it. Bit \<open>i\<close> of a digit's bitmask, for the segments 0 to 6, is
  set exactly when the countdown \<open>toLight = floor(count / 2)\<close> starts at 1 or more and
  reaches 0, that is when at least \<open>floor(count / 2)\<close> of the segment's sample pixels are
  classified lit in the frame: half of them or, for an odd count, one less than half.
  A segment with fewer than two sample pixels is never on.
\<close>

theorem segment_bit_countdown:
  assumes "segment < 7"
  shows "bit (fst (digitBitmask (pixelLit s currentData ambientOffset) (segmentSamples s digit))) segment
         \<longleftrightarrow> (let pixels = segmentSamples s digit segment;
                  toLight = length pixels div 2
              in 1 \<le> toLight \<and> toLight \<le> length (filter (pixelLit s currentData ambientOffset) pixels))"
proof -
  have "map (\<lambda>g. segmentOn (pixelLit s currentData ambientOffset) (segmentSamples s digit g)) [0..<7] ! segment
          = segmentOn (pixelLit s currentData ambientOffset) (segmentSamples s digit segment)"
    using assms by (simp only: nth_map length_upt nth_upt) simp
  then show ?thesis
    using assms unfolding digitBitmask_horner bit_horner_sum_bit_iff Let_def
    by (simp only: length_map length_upt segmentOn_iff) simp
qed

lemma upt_1: "[0..<1] = [0]" and upt_2: "[0..<2] = [0, 1]"
  and upt_7: "[0..<7] = [0, 1, 2, 3, 4, 5, 6]"
  by (simp_all add: upt_rec)

lemma twoPixel_samples:
  "segmentSamples twoPixelReader 0 0 = [(0, 0), (1, 0)]"
  "segmentSamples twoPixelReader 0 1 = [(0, 0)]"
  "segmentSamples twoPixelReader 0 (Suc 0) = [(0, 0)]"
  by (simp_all add: twoPixelReader_def)

lemma twoPixel_offset: "estimateAmbientOffset twoPixelReader twoPixelFrame = Num 0"
  by (simp add: estimateAmbientOffset_def twoPixelReader_def newReader_def create2dArray_def
      strided_def ambientRow_def elemAt_def upt_1 upt_2)

lemma twoPixel_lit:
  "pixelLit twoPixelReader twoPixelFrame (Num 0) (0, 0)"
  "\<not> pixelLit twoPixelReader twoPixelFrame (Num 0) (1, 0)"
  by (simp_all add: pixelLit_def isPixelLit_def getPixelGrayValue_def cell_def elemAt_def
      twoPixelReader_def twoPixelFrame_def newReader_def fl_eval)

lemma ambient_zero_mask:
  assumes "backgroundMask s = create2dArray h w 0"
  shows "estimateAmbientOffset s img = Num 0"
proof -
  have row: "ambientRow s img stepX acc y = acc" for stepX acc y
  proof (cases "elemAt (backgroundMask s) (int y)")
    case None
    then show ?thesis by (simp add: ambientRow_def)
  next
    case (Some maskRow)
    then have m: "maskRow = replicate w 0"
      using assms by (auto simp: elemAt_def create2dArray_def split: if_splits)
    have "foldl (\<lambda>(sum, count) x.
                   if (case elemAt maskRow (int x) of None \<Rightarrow> False | Some m \<Rightarrow> m \<noteq> 0)
                   then (jadd sum (jsub (getPixelGrayValue s img (int x) (int y))
                                        (case elemAt unlitRow (int x) of None \<Rightarrow> NaN | Some u \<Rightarrow> u)),
                         Suc count)
                   else (sum, count)) acc xs = acc" for xs unlitRow
      by (induction xs) (auto simp: m elemAt_def split: prod.splits)
    then show ?thesis using Some by (simp add: ambientRow_def split: option.splits)
  qed
  have "foldl (ambientRow s img stepX) acc ys = acc" for stepX acc ys
    by (induction ys) (simp_all add: row)
  then show ?thesis by (simp add: estimateAmbientOffset_def)
qed

lemma rowReader_offset: "estimateAmbientOffset (rowReader n) img = Num 0"
  by (rule ambient_zero_mask [where h = 1 and w = n]) (simp add: rowReader_def newReader_def)

theorem segment_bit_countdown_witness:
  "(0::nat) < 7 \<and>
   bit (fst (digitBitmask (pixelLit twoPixelReader twoPixelFrame (Num 0)) (segmentSamples twoPixelReader 0))) 0"
  using segment_bit_countdown [of 0 twoPixelReader twoPixelFrame "Num 0" 0]
  by (simp add: twoPixel_samples twoPixel_lit)

text \<open>
  Against claim C2 as stated: with two sample pixels of which one is lit, not more than
  half are lit and the bit is set; with a single sample pixel that is lit, more than half
  are lit and the bit is not set.
\<close>

theorem half_lit_segment_is_on:
  "bit (fst (digitBitmask (pixelLit twoPixelReader twoPixelFrame (estimateAmbientOffset twoPixelReader twoPixelFrame))
               (segmentSamples twoPixelReader 0))) 0
   \<and> \<not> length (segmentSamples twoPixelReader 0 0)
         < 2 * length (filter (pixelLit twoPixelReader twoPixelFrame (estimateAmbientOffset twoPixelReader twoPixelFrame))
                         (segmentSamples twoPixelReader 0 0))
   \<and> \<not> bit (fst (digitBitmask (pixelLit twoPixelReader twoPixelFrame (estimateAmbientOffset twoPixelReader twoPixelFrame))
               (segmentSamples twoPixelReader 0))) 1
   \<and> length (segmentSamples twoPixelReader 0 1)
         < 2 * length (filter (pixelLit twoPixelReader twoPixelFrame (estimateAmbientOffset twoPixelReader twoPixelFrame))
                         (segmentSamples twoPixelReader 0 1))"
  unfolding digitBitmask_horner bit_horner_sum_bit_iff twoPixel_offset
  by (simp add: upt_7 segmentOn_iff twoPixel_samples twoPixel_lit)

section \<open>The pixel classifier\<close>



section \<open>One refine pass\<close>

lemma fl_nonneg: "0 \<le> x \<Longrightarrow> 0 \<le> fl x"
  using fl_bounds(2) [of x] by (simp add: zero_le_mult_iff)

lemma highLimit_nonneg: "0 \<le> highLimit n"
proof -
  have "0 \<le> fl (7 / 10)" by (simp add: fl_seven_tenths)
  then show ?thesis unfolding highLimit_def by (intro zero_le_floor [THEN iffD2] fl_nonneg mult_nonneg_nonneg) simp_all
qed

lemma refineSegment_cases:
  "refineSegment lit ps =
     (if highLimit (length ps) < int (length (filter lit ps)) then filter lit ps
      else if highLimit (length ps) < int (length (filter (\<lambda>p. \<not> lit p) ps))
           then filter (\<lambda>p. \<not> lit p) ps
      else ps)"
  by (simp add: refineSegment_def Let_def)

lemma refineSegment_nonempty: "ps \<noteq> [] \<Longrightarrow> refineSegment lit ps \<noteq> []"
  using highLimit_nonneg [of "length ps"] by (auto simp: refineSegment_cases)

lemma refineSegment_percent:
  assumes "length ps < 2 ^ 32"
  shows "7 * length ps < 10 * length (filter lit ps) \<Longrightarrow> refineSegment lit ps = filter lit ps"
    and "7 * length ps < 10 * length (filter (\<lambda>p. \<not> lit p) ps)
           \<Longrightarrow> refineSegment lit ps = filter (\<lambda>p. \<not> lit p) ps"
    and "10 * length (filter lit ps) < 7 * length ps
           \<Longrightarrow> 10 * length (filter (\<lambda>p. \<not> lit p) ps) < 7 * length ps
           \<Longrightarrow> refineSegment lit ps = ps"
proof -
  let ?n = "length ps" and ?l = "length (filter lit ps)"
    and ?o = "length (filter (\<lambda>p. \<not> lit p) ps)"
  have total: "?l + ?o = ?n" using sum_length_filter_compl [of lit ps] by (simp add: comp_def)
  { assume "7 * ?n < 10 * ?l"
    then have "7 * int ?n < 10 * int ?l" by linarith
    from highLimit_bounds(1) [OF assms this]
    show "refineSegment lit ps = filter lit ps" by (simp add: refineSegment_cases) }
  { assume a: "7 * ?n < 10 * ?o"
    then have "7 * int ?n < 10 * int ?o" by linarith
    from highLimit_bounds(1) [OF assms this] have o: "highLimit ?n < int ?o" .
    have "10 * int ?l < 7 * int ?n" using a total by linarith
    from highLimit_bounds(2) [OF assms this] have "\<not> highLimit ?n < int ?l" by simp
    with o show "refineSegment lit ps = filter (\<lambda>p. \<not> lit p) ps"
      by (simp add: refineSegment_cases) }
  { assume "10 * ?l < 7 * ?n" "10 * ?o < 7 * ?n"
    then have "10 * int ?l < 7 * int ?n" "10 * int ?o < 7 * int ?n" by linarith+
    from highLimit_bounds(2) [OF assms this(1)] highLimit_bounds(2) [OF assms this(2)]
    show "refineSegment lit ps = ps" by (simp add: refineSegment_cases) }
qed

text \<open>
  Claim C8, as the code has it. One pass replaces a segment's sample set by its lit
  subset when the number of lit pixels exceeds \<open>Math.floor(pixelCount * 0.7)\<close>, else by
  its unlit subset when the number of unlit pixels exceeds that limit, and else leaves it
  unchanged; a nonempty set never becomes empty. For a set of fewer than \<open>2^32\<close> pixels
  (any array) this means: more than 70% lit narrows to the lit subset, more than 70% unlit
  to the unlit subset, and less than 70% of each leaves the set unchanged. At exactly 70%
  the rounding of the product decides.
\<close>

theorem refine_seventy_percent:
  assumes "digit < 6" "segment < 8"
  shows "let lit = pixelLit s currentData (estimateAmbientOffset s currentData);
             pixels = segmentSamples s digit segment;
             litPixels = filter lit pixels;
             offPixels = filter (\<lambda>p. \<not> lit p) pixels;
             refined = segmentSamples (refine s currentData) digit segment
         in refined = (if highLimit (length pixels) < int (length litPixels) then litPixels
                       else if highLimit (length pixels) < int (length offPixels) then offPixels
                       else pixels)
            \<and> (pixels \<noteq> [] \<longrightarrow> refined \<noteq> [])
            \<and> (length pixels < 2 ^ 32 \<longrightarrow>
                 (7 * length pixels < 10 * length litPixels \<longrightarrow> refined = litPixels) \<and>
                 (7 * length pixels < 10 * length offPixels \<longrightarrow> refined = offPixels) \<and>
                 (10 * length litPixels < 7 * length pixels \<and> 10 * length offPixels < 7 * length pixels
                    \<longrightarrow> refined = pixels))"
proof -
  have r: "segmentSamples (refine s currentData) digit segment
             = refineSegment (pixelLit s currentData (estimateAmbientOffset s currentData))
                 (segmentSamples s digit segment)"
    using assms by (simp add: refine_def Let_def)
  show ?thesis
    unfolding Let_def r
    using refineSegment_percent [of "segmentSamples s digit segment"
        "pixelLit s currentData (estimateAmbientOffset s currentData)"]
      refineSegment_nonempty [of "segmentSamples s digit segment"
        "pixelLit s currentData (estimateAmbientOffset s currentData)"]
    by (auto simp: refineSegment_cases)
qed

lemma concat_chunks:
  assumes "\<And>i. length (f i) = c"
  shows "length (concat (map f [0..<n])) = n * c"
    and "i < n \<Longrightarrow> j < c \<Longrightarrow> concat (map f [0..<n]) ! (i * c + j) = f i ! j"
proof -
  show len: "length (concat (map f [0..<n])) = n * c" for n
    by (induction n) (simp_all add: assms)
  show "i < n \<Longrightarrow> j < c \<Longrightarrow> concat (map f [0..<n]) ! (i * c + j) = f i ! j"
  proof (induction n)
    case 0
    then show ?case by simp
  next
    case (Suc n)
    show ?case
    proof (cases "i < n")
      case True
      then have "Suc i * c \<le> n * c" by (intro mult_le_mono1) simp
      then have "i * c + j < n * c" using Suc.prems(2) by simp
      then show ?thesis using Suc True by (simp add: nth_append len)
    next
      case False
      with Suc.prems have "i = n" by simp
      then show ?thesis using Suc.prems by (simp add: nth_append len)
    qed
  qed
qed

lemma rowFrame_gray:
  assumes "i < n"
  shows "getPixelGrayValue (rowReader n) (rowFrame k n) (int i) 0 = Num (if i < k then 210 else 60)"
proof -
  let ?f = "\<lambda>i::nat. if i < k then [210, 210, 210, 255] else [60, 60, 60, 255::nat]"
  have c: "\<And>i. length (?f i) = 4" by simp
  have w: "canvasWidth (rowReader n) = n" by (simp add: rowReader_def newReader_def)
  have at: "elemAt (data (rowFrame k n)) (int i * 4 + int j) = Some (?f i ! j)" if "j < 4" for j
  proof -
    have lt: "i * 4 + j < n * 4" using assms that by simp
    have e: "int i * 4 + int j = int (i * 4 + j)" by simp
    show ?thesis
      unfolding e elemAt_def rowFrame_def
      using concat_chunks(2) [of ?f 4 i n j, OF c assms that] concat_chunks(1) [of ?f 4 n, OF c] lt
      by (simp del: of_nat_add of_nat_mult)
  qed
  from at [of 0] at [of 1] at [of 2]
  show ?thesis by (simp add: getPixelGrayValue_def w fl_eval add.assoc)
qed

lemma rowReader_lit:
  assumes "i < n"
  shows "pixelLit (rowReader n) (rowFrame k n) (Num 0) (int i, 0) = (i < k)"
proof -
  have "elemAt (replicate n (Num 200 :: jsnum)) (int i) = Some (Num 200)"
    "elemAt (replicate n (Num 50 :: jsnum)) (int i) = Some (Num 50)"
    using assms by (simp_all add: elemAt_def)
  then show ?thesis
    unfolding pixelLit_def fst_conv snd_conv rowFrame_gray [OF assms]
    by (simp add: isPixelLit_def cell_def rowReader_def elemAt_def fl_eval)
qed

lemma filter_upt_less:
  "k \<le> n \<Longrightarrow> filter (\<lambda>i. i < k) [0..<n] = [0..<k]"
  "k \<le> n \<Longrightarrow> filter (\<lambda>i. \<not> i < k) [0..<n] = [k..<n]"
proof -
  assume "k \<le> n"
  then have "[0..<n] = [0..<k] @ [k..<n]" by (metis le0 upt_add_eq_append le_add_diff_inverse)
  then show "filter (\<lambda>i. i < k) [0..<n] = [0..<k]" "filter (\<lambda>i. \<not> i < k) [0..<n] = [k..<n]"
    by (simp_all add: filter_empty_conv)
qed

lemma rowReader_filter:
  assumes "k \<le> n"
  shows "filter (pixelLit (rowReader n) (rowFrame k n) (estimateAmbientOffset (rowReader n) (rowFrame k n)))
           (segmentSamples (rowReader n) 0 0) = map (\<lambda>i. (int i, 0)) [0..<k]"
    and "filter (\<lambda>p. \<not> pixelLit (rowReader n) (rowFrame k n) (estimateAmbientOffset (rowReader n) (rowFrame k n)) p)
           (segmentSamples (rowReader n) 0 0) = map (\<lambda>i. (int i, 0)) [k..<n]"
proof -
  have s: "segmentSamples (rowReader n) 0 0 = map (\<lambda>i. (int i, 0)) [0..<n]"
    by (simp add: rowReader_def)
  have "filter (\<lambda>i. pixelLit (rowReader n) (rowFrame k n) (Num 0) (int i, 0)) [0..<n]
          = filter (\<lambda>i. i < k) [0..<n]"
    by (rule filter_cong) (simp_all add: rowReader_lit)
  then show "filter (pixelLit (rowReader n) (rowFrame k n) (estimateAmbientOffset (rowReader n) (rowFrame k n)))
           (segmentSamples (rowReader n) 0 0) = map (\<lambda>i. (int i, 0)) [0..<k]"
    unfolding s rowReader_offset by (simp add: filter_map comp_def filter_upt_less [OF assms])
  have "filter (\<lambda>i. \<not> pixelLit (rowReader n) (rowFrame k n) (Num 0) (int i, 0)) [0..<n]
          = filter (\<lambda>i. \<not> i < k) [0..<n]"
    by (rule filter_cong) (simp_all add: rowReader_lit)
  then show "filter (\<lambda>p. \<not> pixelLit (rowReader n) (rowFrame k n) (estimateAmbientOffset (rowReader n) (rowFrame k n)) p)
           (segmentSamples (rowReader n) 0 0) = map (\<lambda>i. (int i, 0)) [k..<n]"
    unfolding s rowReader_offset by (simp add: filter_map comp_def filter_upt_less [OF assms])
qed

lemma highLimit_values: "highLimit 90 = 62" "highLimit 10 = 7" "highLimit 2 = 1"
  by code_simp+

lemma rowReader_length: "length (segmentSamples (rowReader n) 0 0) = n"
  by (simp add: rowReader_def)

theorem refine_seventy_percent_witness:
  "(0::nat) < 6 \<and> (0::nat) < 8 \<and> segmentSamples (rowReader 10) 0 0 \<noteq> [] \<and>
   length (segmentSamples (rowReader 10) 0 0) < 2 ^ 32 \<and>
   segmentSamples (refine (rowReader 10) (rowFrame 8 10)) 0 0 = map (\<lambda>i. (int i, 0)) [0..<8] \<and>
   segmentSamples (refine (rowReader 2) (rowFrame 1 2)) 0 0 = segmentSamples (rowReader 2) 0 0"
proof -
  have "segmentSamples (refine (rowReader 10) (rowFrame 8 10)) 0 0 = map (\<lambda>i. (int i, 0)) [0..<8]"
    using refine_seventy_percent [of 0 0 "rowReader 10" "rowFrame 8 10"]
    by (simp add: Let_def rowReader_filter rowReader_length highLimit_values)
  moreover have "segmentSamples (refine (rowReader 2) (rowFrame 1 2)) 0 0 = segmentSamples (rowReader 2) 0 0"
    using refine_seventy_percent [of 0 0 "rowReader 2" "rowFrame 1 2"]
    by (simp add: Let_def rowReader_filter rowReader_length highLimit_values)
  ultimately show ?thesis using rowReader_length [of 10] by auto
qed

text \<open>
  Against claim C8 as stated: of 90 sample pixels exactly 63, which is 70% and not more,
  are lit; the product \<open>90 * 0.7\<close> rounds below 63, the limit is 62, and the set is
  narrowed to its lit subset instead of being left unchanged.
\<close>

theorem exactly_seventy_percent_narrows:
  "length (segmentSamples (rowReader 90) 0 0) = 90 \<and>
   length (filter (pixelLit (rowReader 90) (rowFrame 63 90) (estimateAmbientOffset (rowReader 90) (rowFrame 63 90)))
             (segmentSamples (rowReader 90) 0 0)) = 63 \<and>
   highLimit 90 = 62 \<and>
   segmentSamples (refine (rowReader 90) (rowFrame 63 90)) 0 0 = map (\<lambda>i. (int i, 0)) [0..<63] \<and>
   segmentSamples (refine (rowReader 90) (rowFrame 63 90)) 0 0 \<noteq> segmentSamples (rowReader 90) 0 0"
proof -
  have n: "length (segmentSamples (rowReader 90) 0 0) = 90" by (rule rowReader_length)
  have r: "segmentSamples (refine (rowReader 90) (rowFrame 63 90)) 0 0 = map (\<lambda>i. (int i, 0)) [0..<63]"
    by (simp add: refine_def Let_def refineSegment_cases rowReader_filter n highLimit_values)
  have "length (segmentSamples (refine (rowReader 90) (rowFrame 63 90)) 0 0) = 63"
    unfolding r by simp
  then have "segmentSamples (refine (rowReader 90) (rowFrame 63 90)) 0 0 \<noteq> segmentSamples (rowReader 90) 0 0"
    using n by auto
  then show ?thesis using n r by (simp add: rowReader_filter highLimit_values)
qed

section \<open>Writes to the configuration\<close>

lemma validThreshold_iff: "validThreshold n \<longleftrightarrow> (\<exists>x. n = Finite x \<and> 0 < x \<and> x < 255)"
  by (cases n) (auto simp: validThreshold_def)

text \<open>
  Claim C9, as the code has it. A write to \<open>grayThreshold\<close> or to
  \<open>decimalPointFloodFillThreshold\<close> stores a number strictly between 0 and 255 and
  silently ignores every other number, 0 and 255 included, leaving the configuration as
  it was; a value of another type is stored or ignored by the number it converts to. A
  write of anything but a boolean to \<open>rotate180\<close> is silently ignored, and a boolean is
  stored.
\<close>

theorem configuration_writes_validated:
  "(\<forall>x. 0 < x \<and> x < 255 \<longrightarrow>
        set_grayThreshold parse c (VNumber (Finite x)) = Inr (c\<lparr>configuration.grayThreshold := VNumber (Finite x)\<rparr>) \<and>
        set_decimalPointFloodFillThreshold parse c (VNumber (Finite x))
          = Inr (c\<lparr>decimalPointFloodFillThreshold := VNumber (Finite x)\<rparr>))
   \<and> (\<forall>n. (\<forall>x. n = Finite x \<longrightarrow> x \<le> 0 \<or> 255 \<le> x) \<longrightarrow>
        set_grayThreshold parse c (VNumber n) = Inr c \<and>
        set_decimalPointFloodFillThreshold parse c (VNumber n) = Inr c)
   \<and> (\<forall>v n. toNumber parse v = Inr n \<longrightarrow>
        set_grayThreshold parse c v
          = Inr (if \<exists>x. n = Finite x \<and> 0 < x \<and> x < 255 then c\<lparr>configuration.grayThreshold := v\<rparr> else c) \<and>
        set_decimalPointFloodFillThreshold parse c v
          = Inr (if \<exists>x. n = Finite x \<and> 0 < x \<and> x < 255
                 then c\<lparr>decimalPointFloodFillThreshold := v\<rparr> else c))
   \<and> (\<forall>v. (\<forall>flag. v \<noteq> VBoolean flag) \<longrightarrow> set_rotate180 c v = c)
   \<and> (\<forall>flag. set_rotate180 c (VBoolean flag) = c\<lparr>configuration.rotate180 := flag\<rparr>)"
proof -
  have "set_rotate180 c v = c" if "\<forall>flag. v \<noteq> VBoolean flag" for v
    using that by (cases v) (auto simp: set_rotate180_def)
  moreover have "set_grayThreshold parse c (VNumber n) = Inr c \<and>
        set_decimalPointFloodFillThreshold parse c (VNumber n) = Inr c"
    if "\<forall>x. n = Finite x \<longrightarrow> x \<le> 0 \<or> 255 \<le> x" for n
    using that
    by (cases n) (auto simp: set_grayThreshold_def set_decimalPointFloodFillThreshold_def validThreshold_iff)
  ultimately show ?thesis
    by (simp add: set_grayThreshold_def set_decimalPointFloodFillThreshold_def validThreshold_iff
        set_rotate180_def)
qed

theorem configuration_writes_validated_witness:
  "(0::rat) < 100 \<and> (100::rat) < 255 \<and>
   set_grayThreshold (\<lambda>str. NotANumber) newConfiguration (VNumber (Finite 100))
     = Inr (newConfiguration\<lparr>configuration.grayThreshold := VNumber (Finite 100)\<rparr>) \<and>
   (300::rat) \<ge> 255 \<and>
   set_decimalPointFloodFillThreshold (\<lambda>str. NotANumber) newConfiguration (VNumber (Finite 300))
     = Inr newConfiguration \<and>
   toNumber (\<lambda>str. NotANumber) (VString ''abc'') = Inr NotANumber \<and>
   set_grayThreshold (\<lambda>str. NotANumber) newConfiguration (VString ''abc'') = Inr newConfiguration \<and>
   set_rotate180 newConfiguration VNull = newConfiguration \<and>
   set_rotate180 newConfiguration (VBoolean False) = newConfiguration\<lparr>configuration.rotate180 := False\<rparr>"
  using configuration_writes_validated [of "\<lambda>str. NotANumber" newConfiguration]
  by simp

text \<open>
  Against claim C9 as stated: 0 and 255, the two ends of the range 0 to 255, are ignored
  by both setters, and the getters return the values from before, 90 and 40.
\<close>

theorem range_ends_are_ignored:
  "set_grayThreshold (\<lambda>str. NotANumber) newConfiguration (VNumber (Finite 0)) = Inr newConfiguration \<and>
   set_grayThreshold (\<lambda>str. NotANumber) newConfiguration (VNumber (Finite 255)) = Inr newConfiguration \<and>
   set_decimalPointFloodFillThreshold (\<lambda>str. NotANumber) newConfiguration (VNumber (Finite 0))
     = Inr newConfiguration \<and>
   set_decimalPointFloodFillThreshold (\<lambda>str. NotANumber) newConfiguration (VNumber (Finite 255))
     = Inr newConfiguration \<and>
   configuration.grayThreshold newConfiguration = VNumber (Finite 90) \<and>
   decimalPointFloodFillThreshold newConfiguration = VNumber (Finite 40)"
  by (simp add: set_grayThreshold_def set_decimalPointFloodFillThreshold_def validThreshold_def
      newConfiguration_def)

section \<open>The flood fill returns\<close>

lemma elemAt_Some_iff: "elemAt xs i = Some v \<longleftrightarrow> 0 \<le> i \<and> nat i < length xs \<and> xs ! nat i = v"
  by (auto simp: elemAt_def)

lemma elemAt_None_iff: "elemAt xs i = None \<longleftrightarrow> i < 0 \<or> length xs \<le> nat i"
  by (auto simp: elemAt_def)

lemma rowLimit_ge: "row \<in> set grid \<Longrightarrow> length row \<le> rowLimit grid"
  unfolding rowLimit_def by (induction grid) auto

lemma cells_subset: "cells grid \<subseteq> {0..<int (rowLimit grid)} \<times> {0..<int (length grid)}"
proof
  fix c assume "c \<in> cells grid"
  then obtain row v where r: "elemAt grid (snd c) = Some row" and v: "elemAt row (fst c) = Some v"
    by (auto simp: cells_def cell2_def split: option.splits)
  from r have "row \<in> set grid" "0 \<le> snd c" "snd c < int (length grid)"
    by (auto simp: elemAt_Some_iff)
  moreover from v have "0 \<le> fst c" "nat (fst c) < length row" by (auto simp: elemAt_Some_iff)
  ultimately have "fst c \<in> {0..<int (rowLimit grid)}" "snd c \<in> {0..<int (length grid)}"
    using rowLimit_ge [of row grid] by auto
  then show "c \<in> {0..<int (rowLimit grid)} \<times> {0..<int (length grid)}"
    by (cases c) auto
qed

lemma finite_cells [simp]: "finite (cells grid)"
  by (rule finite_subset [OF cells_subset]) simp

lemma setPixel_rows:
  "elemAt res ny \<noteq> None \<Longrightarrow> \<exists>res'. setPixel res nx ny = Inr res' \<and> length res' = length res"
  by (auto simp: setPixel_def split: option.splits)

lemma visitNeighbour_measure:
  assumes "inBoundsOnly tf grid" "length grid \<le> length (result st)"
  shows "\<exists>st'. visitNeighbour tf grid c st d = Inr st' \<and> fillMeasure grid st' \<le> fillMeasure grid st
            \<and> length (result st') = length (result st)"
proof -
  define nx ny where "nx = fst c + fst d" and "ny = snd c + snd d"
  show ?thesis
  proof (cases "elemAt grid ny")
    case None
    then show ?thesis by (simp add: visitNeighbour_def Let_def nx_def ny_def)
  next
    case (Some row)
    show ?thesis
    proof (cases "(nx, ny) \<in> visited st")
      case True
      then show ?thesis using Some by (simp add: visitNeighbour_def Let_def nx_def ny_def)
    next
      case False
      obtain m e where tf: "tf (elemAt row nx) (nx, ny) grid (env st) = (m, e)" by force
      have shrink: "card (cells grid - insert (nx, ny) (visited st)) \<le> card (cells grid - visited st)"
        by (intro card_mono) auto
      show ?thesis
      proof (cases m)
        case False
        then show ?thesis
          using Some \<open>(nx, ny) \<notin> visited st\<close> tf shrink
          by (simp add: visitNeighbour_def Let_def nx_def [symmetric] ny_def [symmetric] fillMeasure_def)
      next
        case True
        have c2: "cell2 grid nx ny = elemAt row nx" using Some by (simp add: cell2_def)
        have din: "elemAt row nx \<noteq> None"
        proof
          assume n: "elemAt row nx = None"
          with c2 assms(1) have "\<not> fst (tf None (nx, ny) grid (env st))"
            by (simp add: inBoundsOnly_def)
          with tf n True show False by simp
        qed
        then have incells: "(nx, ny) \<in> cells grid" using c2 by (simp add: cells_def)
        have "elemAt (result st) ny \<noteq> None"
          using Some assms(2) by (auto simp: elemAt_def split: if_splits)
        from setPixel_rows [OF this, of nx] obtain res where
          res: "setPixel (result st) nx ny = Inr res" "length res = length (result st)" by blast
        have "cells grid - visited st = insert (nx, ny) (cells grid - insert (nx, ny) (visited st))"
          using incells \<open>(nx, ny) \<notin> visited st\<close> by auto
        then have "card (cells grid - visited st) = Suc (card (cells grid - insert (nx, ny) (visited st)))"
          by (metis Diff_iff card_insert_disjoint finite_Diff finite_cells insertI1)
        then show ?thesis
          using Some \<open>(nx, ny) \<notin> visited st\<close> tf True res
          by (simp add: visitNeighbour_def Let_def nx_def [symmetric] ny_def [symmetric] fillMeasure_def)
      qed
    qed
  qed
qed

lemma visitAll_measure:
  assumes "inBoundsOnly tf grid" "length grid \<le> length (result st)"
  shows "\<exists>st'. visitAll tf grid c st ds = Inr st' \<and> fillMeasure grid st' \<le> fillMeasure grid st
            \<and> length (result st') = length (result st)"
  using assms(2)
proof (induction ds arbitrary: st)
  case Nil
  then show ?case by simp
next
  case (Cons d ds)
  from visitNeighbour_measure [OF assms(1) Cons.prems, of c d] obtain st1 where
    1: "visitNeighbour tf grid c st d = Inr st1" "fillMeasure grid st1 \<le> fillMeasure grid st"
       "length (result st1) = length (result st)" by blast
  from Cons.IH [of st1] 1 Cons.prems obtain st2 where
    "visitAll tf grid c st1 ds = Inr st2" "fillMeasure grid st2 \<le> fillMeasure grid st1"
    "length (result st2) = length (result st1)" by auto
  with 1 show ?case by simp
qed

lemma fillLoop_terminates:
  assumes "inBoundsOnly tf grid" "length grid \<le> length (result st)"
  shows "\<exists>st'. fillLoop tf grid st = Some (Inr st') \<and> length (result st') = length (result st)"
  using assms(2)
proof (induction "fillMeasure grid st" arbitrary: st rule: less_induct)
  case less
  show ?case
  proof (cases "queue st")
    case Nil
    then show ?thesis by (subst fillLoop.simps) simp
  next
    case (Cons c rest)
    let ?st0 = "st\<lparr>queue := rest\<rparr>"
    have r0: "length grid \<le> length (result ?st0)" using less.prems by simp
    from visitAll_measure [OF assms(1) r0, of c directions] obtain st1 where
      1: "visitAll tf grid c ?st0 directions = Inr st1" "fillMeasure grid st1 \<le> fillMeasure grid ?st0"
         "length (result st1) = length (result ?st0)" by blast
    have "fillMeasure grid ?st0 < fillMeasure grid st" using Cons by (simp add: fillMeasure_def)
    then have "fillMeasure grid st1 < fillMeasure grid st" using 1(2) by simp
    from less.hyps [OF this] 1(3) less.prems obtain st' where
      "fillLoop tf grid st1 = Some (Inr st')" "length (result st') = length (result st1)" by auto
    then show ?thesis using Cons 1 by (subst fillLoop.simps) simp
  qed
qed

lemma generateBitmask_terminates:
  assumes "inBoundsOnly tf grid" "length grid \<le> canvasHeight s"
  shows "\<exists>bitmask e'. generateBitmask truthy s grid (Some tf) None q e = Some (Inr (bitmask, e'))
            \<and> length bitmask = canvasHeight s"
proof -
  let ?st = "\<lparr>queue = (if q = [] then [(0, 0)] else q), visited = {},
               result = createPixelArray s 0, env = e\<rparr>"
  have "length grid \<le> length (result ?st)"
    using assms(2) by (simp add: createPixelArray_def create2dArray_def)
  from fillLoop_terminates [OF assms(1) this] obtain st' where
    "fillLoop tf grid ?st = Some (Inr st')" "length (result st') = length (result ?st)" by blast
  then show ?thesis
    by (simp add: generateBitmask_def createPixelArray_def create2dArray_def)
qed

lemma inBoundsOnly_background [simp]: "inBoundsOnly (backgroundMatchFunction detectable) detectable"
  by (simp add: inBoundsOnly_def backgroundMatchFunction_def)

lemma inBoundsOnly_hole [simp]: "inBoundsOnly (holeMatchFunction detectable background) detectable"
  by (simp add: inBoundsOnly_def holeMatchFunction_def)

lemma inBoundsOnly_dp [simp]: "inBoundsOnly (dpTestFunction s) grid"
  by (simp add: inBoundsOnly_def dpTestFunction_def)

lemma findHoleComponent_terminates:
  assumes "length detectable \<le> canvasHeight s"
  shows "\<exists>ps seen'. findHoleComponent s detectable background seen c = Some (Inr (ps, seen'))"
proof -
  from generateBitmask_terminates [OF inBoundsOnly_hole assms, where truthy = nonzero and q = "[c]" and e = seen]
  obtain bitmask e' where
    "generateBitmask nonzero s detectable (Some (holeMatchFunction detectable background)) None [c] seen
       = Some (Inr (bitmask, e'))" by blast
  then show ?thesis by (simp add: findHoleComponent_def)
qed

lemma scanHoles_terminates:
  assumes "length detectable \<le> canvasHeight s"
  shows "\<exists>holes'. scanHoles s detectable background cs seen holes = Some (Inr holes')"
proof (induction cs arbitrary: seen holes)
  case Nil
  show ?case by simp
next
  case (Cons c cs)
  from findHoleComponent_terminates [OF assms, of background seen c] obtain ps seen' where
    f: "findHoleComponent s detectable background seen c = Some (Inr (ps, seen'))" by blast
  show ?case using Cons [of seen holes] Cons [of seen' "holes @ [ps]"] Cons [of seen' holes] f
    by (simp del: findHoleComponent_def)
qed

lemma findHoles_terminates:
  assumes "length detectable \<le> canvasHeight s"
  shows "\<exists>background holes. findHoles s detectable = Some (Inr (background, holes))
           \<and> length background = canvasHeight s"
proof -
  from generateBitmask_terminates [OF inBoundsOnly_background assms, where truthy = nonzero and q = "[]" and e = "()"]
  obtain background e' where
    b: "generateBitmask nonzero s detectable (Some (backgroundMatchFunction detectable)) None [] ()
       = Some (Inr (background, e'))" "length background = canvasHeight s" by blast
  from scanHoles_terminates [OF assms, of background "scanOrder s" "{}" "[]"] obtain holes where
    "scanHoles s detectable background (scanOrder s) {} [] = Some (Inr holes)" by blast
  with b show ?thesis by (simp add: findHoles_def)
qed

lemma floodFillDecimalPoint_terminates:
  assumes "length (grayArray s) \<le> canvasHeight s"
  shows "\<exists>ps. floodFillDecimalPoint s startX startY = Some (Inr ps)"
proof -
  from generateBitmask_terminates [OF inBoundsOnly_dp assms, where truthy = truthyNumber and q = "[(startX, startY)]" and e = "()"]
  obtain bitmask e' where
    "generateBitmask truthyNumber s (grayArray s) (Some (dpTestFunction s)) None [(startX, startY)] ()
       = Some (Inr (bitmask, e'))" by blast
  then show ?thesis by (simp add: floodFillDecimalPoint_def)
qed

lemma sameButSamples_refl [simp]: "sameButSamples s s"
  by (simp add: sameButSamples_def)

lemma sameButSamples_trans: "sameButSamples s s' \<Longrightarrow> sameButSamples s' s'' \<Longrightarrow> sameButSamples s s''"
  unfolding sameButSamples_def by (metis (no_types) reader.surjective reader.update_convs(11))

lemma sameButSamples_upd [simp]: "sameButSamples s (s\<lparr>segmentSamples := f\<rparr>)"
  by (simp add: sameButSamples_def)

lemma sameButSamples_fields:
  assumes "sameButSamples s s'"
  shows "canvasWidth s' = canvasWidth s" "canvasHeight s' = canvasHeight s"
    "calibrationImages s' = calibrationImages s" "lastDisplay s' = lastDisplay s"
    "calibrated s' = calibrated s" "showDebugMask s' = showDebugMask s"
    "consistentOutputCount s' = consistentOutputCount s" "grayThreshold s' = grayThreshold s"
    "floodFillDpThreshold s' = floodFillDpThreshold s" "rotate180 s' = rotate180 s"
    "grayArray s' = grayArray s" "litReference s' = litReference s"
    "unlitReference s' = unlitReference s" "backgroundMask s' = backgroundMask s"
  using assms unfolding sameButSamples_def
  by (metis reader.select_convs reader.surjective reader.update_convs(11))+

lemma locateDigit_terminates:
  assumes "length (grayArray s) \<le> canvasHeight s"
  shows "\<exists>es s'. locateDigit detectable s holes digit = Some (Inr (es, s')) \<and> sameButSamples s s'"
proof (cases "length holes \<noteq> 2")
  case True
  then show ?thesis by (simp add: locateDigit_def)
next
  case False
  let ?segments = "sampleSegments s detectable (sort_key centerY holes ! 0) (sort_key centerY holes ! 1)
                  (segmentSamples s digit)"
  let ?s1 = "s\<lparr>segmentSamples := (segmentSamples s)(digit := ?segments)\<rparr>"
  have g: "length (grayArray ?s1) \<le> canvasHeight ?s1" using assms by simp
  from floodFillDecimalPoint_terminates [OF g] obtain ps where
    ff: "floodFillDecimalPoint ?s1 (rightmostX ?segments + 2) (bottommostY ?segments + 2) = Some (Inr ps)"
    by blast
  show ?thesis
  proof (cases "rightmostX ?segments \<noteq> -1 \<and> bottommostY ?segments \<noteq> -1")
    case True
    have "locateDigit detectable s holes digit
            = Some (Inr ([], ?s1\<lparr>segmentSamples := (segmentSamples ?s1)(digit := ?segments(7 := ps))\<rparr>))"
      unfolding locateDigit_def Let_def using False True ff by (simp only: if_True if_False not_not) simp
    then show ?thesis by (simp add: sameButSamples_def)
  next
    case nodp: False
    have "locateDigit detectable s holes digit = Some (Inr ([], ?s1))"
      unfolding locateDigit_def Let_def using False nodp by (simp only: if_True if_False not_not) simp
    then show ?thesis by (simp add: sameButSamples_def)
  qed
qed

lemma locateDigits_terminates:
  assumes "length (grayArray s) \<le> canvasHeight s"
  shows "\<exists>es s'. locateDigits detectable s gs = Some (Inr (es, s')) \<and> sameButSamples s s'"
  using assms
proof (induction gs arbitrary: s)
  case Nil
  then show ?case by simp
next
  case (Cons g gs)
  obtain holes digit where g: "g = (holes, digit)" by force
  from locateDigit_terminates [OF Cons.prems, of detectable holes digit] obtain es s1 where
    1: "locateDigit detectable s holes digit = Some (Inr (es, s1))" "sameButSamples s s1" by blast
  have "length (grayArray s1) \<le> canvasHeight s1"
    using Cons.prems sameButSamples_fields [OF 1(2)] by simp
  from Cons.IH [OF this] obtain es' s2 where
    2: "locateDigits detectable s1 gs = Some (Inr (es', s2))" "sameButSamples s1 s2" by blast
  from 1 2 show ?case unfolding g by (auto intro: sameButSamples_trans)
qed

section \<open>Calibration that fails\<close>

lemma length_pixelGrid [simp]: "length (pixelGrid s f) = canvasHeight s"
  by (simp add: pixelGrid_def)

lemma clearGrids_fields [simp]:
  "canvasHeight (clearGrids s) = canvasHeight s" "canvasWidth (clearGrids s) = canvasWidth s"
  "calibrationImages (clearGrids s) = calibrationImages s"
  by (simp_all add: clearGrids_def)

lemma referenceGrids_fields [simp]:
  "canvasHeight (referenceGrids s l u) = canvasHeight s" "canvasWidth (referenceGrids s l u) = canvasWidth s"
  "calibrationImages (referenceGrids s l u) = calibrationImages s"
  "length (grayArray (referenceGrids s l u)) = canvasHeight s"
  by (simp_all add: referenceGrids_def)

lemma getOrdered_clearGrids [simp]:
  "getOrderedCalibrationImages (clearGrids s) = getOrderedCalibrationImages s"
  by (simp add: getOrderedCalibrationImages_def)

lemma getOrdered_pair:
  assumes "length (calibrationImages s) = 2"
  shows "\<exists>l u. getOrderedCalibrationImages s = (Some l, Some u)"
proof -
  from assms obtain a b where "calibrationImages s = [a, b]"
    by (cases "calibrationImages s"; cases "tl (calibrationImages s)") auto
  then show ?thesis by (simp add: getOrderedCalibrationImages_def Let_def)
qed

lemma resetCalibration_absorbs:
  "resetCalibration (s\<lparr>backgroundMask := b\<rparr>) = resetCalibration s"
  "resetCalibration (clearGrids s) = resetCalibration s"
  "resetCalibration (referenceGrids s l u) = resetCalibration s"
  by (simp_all add: resetCalibration_def clearGrids_def referenceGrids_def createPixelArray_def)

lemma calibrationFailed_eq:
  "calibrationFailed s = Some (Inr False, [Alert, Post ReadStop], snd (resetCalibration s))"
  by (simp add: calibrationFailed_def resetCalibration_def)

lemma calibrationFailed_absorbs:
  "calibrationFailed (s\<lparr>backgroundMask := b\<rparr>) = calibrationFailed s"
  "calibrationFailed (clearGrids s) = calibrationFailed s"
  "calibrationFailed (referenceGrids s l u) = calibrationFailed s"
  by (simp_all add: calibrationFailed_def resetCalibration_absorbs)

lemma determineLocations_total:
  "\<exists>outcome es s'. determineLocations s = Some (outcome, es, s')
      \<and> (calibrationImages s' = calibrationImages s \<or> calibrationImages s' = [])"
proof (cases "\<exists>l u. getOrderedCalibrationImages s = (Some l, Some u)")
  case False
  then have "determineLocations s =
      (if canvasHeight s = 0 \<or> canvasWidth s = 0 then calibrationFailed (clearGrids s)
       else Some (Inl TypeError, [], clearGrids s))"
    by (auto simp: determineLocations_def Let_def split: prod.splits option.splits)
  then show ?thesis by (auto simp: calibrationFailed_eq resetCalibration_def)
next
  case True
  then obtain l u where lu: "getOrderedCalibrationImages s = (Some l, Some u)" by blast
  define s1 where "s1 = referenceGrids (clearGrids s) l u"
  define det where "det = detectablePixels (clearGrids s) l u"
  have "length det \<le> canvasHeight s1" by (simp add: det_def s1_def detectablePixels_def)
  from findHoles_terminates [OF this] obtain background holes where
    fh: "findHoles s1 det = Some (Inr (background, holes))" by blast
  show ?thesis
  proof (cases "length holes = 12")
    case False
    then have "determineLocations s = calibrationFailed (s1\<lparr>backgroundMask := background\<rparr>)"
      using lu fh by (simp add: determineLocations_def Let_def s1_def [symmetric] det_def [symmetric])
    then show ?thesis by (auto simp: calibrationFailed_eq resetCalibration_def)
  next
    case True
    let ?s2 = "s1\<lparr>backgroundMask := background\<rparr>"
    have "length (grayArray ?s2) \<le> canvasHeight ?s2" by (simp add: s1_def)
    from locateDigits_terminates [OF this] obtain es s3 where
      ld: "locateDigits det ?s2 (zip (digitGroups holes) [0..<6]) = Some (Inr (es, s3))"
      "sameButSamples ?s2 s3" by blast
    have "determineLocations s = Some (Inr True, es, s3)"
      using lu fh True ld(1)
      by (simp add: determineLocations_def Let_def s1_def [symmetric] det_def [symmetric])
    moreover have "calibrationImages s3 = calibrationImages s"
      using sameButSamples_fields(3) [OF ld(2)] by (simp add: s1_def)
    ultimately show ?thesis by simp
  qed
qed

lemma calibrationHoles_pair:
  assumes "length (calibrationImages s) = 2"
  shows "\<exists>holes. calibrationHoles s = Some holes"
proof -
  from getOrdered_pair [OF assms] obtain l u where lu: "getOrderedCalibrationImages s = (Some l, Some u)"
    by blast
  have "length (detectablePixels (clearGrids s) l u) \<le> canvasHeight (referenceGrids (clearGrids s) l u)"
    by (simp add: detectablePixels_def)
  from findHoles_terminates [OF this] lu show ?thesis
    by (auto simp: calibrationHoles_def Let_def)
qed

text \<open>
  Claim C3. With two calibration images held, the scan for holes returns; when the number
  of qualifying holes is not 12, \<open>determineLocations\<close> and \<open>attemptCalibration\<close> return
  false after the alert, and the state is the one \<open>resetCalibration\<close> leaves: background
  mask, both reference grids and the difference grid filled with zeros, every sample set
  empty, no calibration image held, and \<open>calibrated\<close> false.
\<close>

theorem wrong_hole_count_resets:
  assumes "length (calibrationImages s) = 2"
  shows "\<exists>holes. calibrationHoles s = Some holes \<and>
           (length holes \<noteq> 12 \<longrightarrow>
              attemptCalibration s = Some (Inr False, [Alert, Post ReadStop], snd (resetCalibration s)) \<and>
              determineLocations s = Some (Inr False, [Alert, Post ReadStop], snd (resetCalibration s)) \<and>
              (let s' = snd (resetCalibration s)
               in backgroundMask s' = create2dArray (canvasHeight s) (canvasWidth s) 0 \<and>
                  litReference s' = create2dArray (canvasHeight s) (canvasWidth s) (Num 0) \<and>
                  unlitReference s' = create2dArray (canvasHeight s) (canvasWidth s) (Num 0) \<and>
                  grayArray s' = create2dArray (canvasHeight s) (canvasWidth s) (Num 0) \<and>
                  (\<forall>digit segment. segmentSamples s' digit segment = []) \<and>
                  calibrationImages s' = [] \<and> \<not> calibrated s'))"
proof -
  from getOrdered_pair [OF assms] obtain l u where lu: "getOrderedCalibrationImages s = (Some l, Some u)"
    by blast
  define s1 where "s1 = referenceGrids (clearGrids s) l u"
  define det where "det = detectablePixels (clearGrids s) l u"
  have "length det \<le> canvasHeight s1" by (simp add: det_def s1_def detectablePixels_def)
  from findHoles_terminates [OF this] obtain background holes where
    fh: "findHoles s1 det = Some (Inr (background, holes))" by blast
  have ch: "calibrationHoles s = Some holes"
    using lu fh by (simp add: calibrationHoles_def Let_def s1_def det_def)
  have dl: "determineLocations s = Some (Inr False, [Alert, Post ReadStop], snd (resetCalibration s))"
    if "length holes \<noteq> 12"
    using lu fh that
    by (simp add: determineLocations_def Let_def s1_def [symmetric] det_def [symmetric]
        calibrationFailed_absorbs)
       (simp add: s1_def calibrationFailed_absorbs calibrationFailed_eq resetCalibration_absorbs)
  show ?thesis
    using ch dl
    by (auto simp: attemptCalibration_def resetCalibration_def createPixelArray_def noSamples_def)
qed

lemma generateBitmask_dims:
  assumes "canvasWidth s = canvasWidth s'" "canvasHeight s = canvasHeight s'"
  shows "generateBitmask truthy s grid tf res q e = generateBitmask truthy s' grid tf res q e"
proof -
  have eq: "createPixelArray s (0::nat) = createPixelArray s' 0"
    using assms by (simp add: createPixelArray_def)
  show ?thesis unfolding generateBitmask_def eq ..
qed

lemma findHoleComponent_dims:
  assumes "canvasWidth s = canvasWidth s'" "canvasHeight s = canvasHeight s'"
  shows "findHoleComponent s det bg seen c = findHoleComponent s' det bg seen c"
  unfolding findHoleComponent_def generateBitmask_dims [OF assms] ..

lemma scanHoles_dims:
  assumes "canvasWidth s = canvasWidth s'" "canvasHeight s = canvasHeight s'"
  shows "scanHoles s det bg cs seen holes = scanHoles s' det bg cs seen holes"
  by (induction cs arbitrary: seen holes)
     (simp_all add: findHoleComponent_dims [OF assms] split: option.splits sum.splits prod.splits del: findHoleComponent_def)

lemma findHoles_dims:
  assumes "canvasWidth s = canvasWidth s'" "canvasHeight s = canvasHeight s'"
  shows "findHoles s det = findHoles s' det"
  unfolding findHoles_def generateBitmask_dims [OF assms] scanHoles_dims [OF assms] scanOrder_def assms ..

lemmas grid_eval = pixelGrid_def createPixelArray_def create2dArray_def cell2_def elemAt_def
  upt_rec [of _ "numeral _"] strided_def

lemma pair_ordered:
  "getOrderedCalibrationImages capturedPair = (Some twoPixelFrame, Some darkFrame)"
  by (simp add: getOrderedCalibrationImages_def capturedPair_def twoPixelFrame_def darkFrame_def
      brightness_def byteSum_def grid_eval fl_eval Let_def)

lemma pair_detectable:
  "detectablePixels (clearGrids capturedPair) twoPixelFrame darkFrame = [[1, 0]]"
  by (simp add: detectablePixels_def difference_def getPixelGrayValue_def clearGrids_def capturedPair_def
      newReader_def twoPixelFrame_def darkFrame_def grid_eval fl_eval)

lemma pair_findHoles: "findHoles (newReader 2 1 90 40 True) [[1, 0]] = Some (Inr ([[0, 1]], []))"
  by code_simp

lemma pair_holes: "calibrationHoles capturedPair = Some []"
proof -
  have eq: "findHoles (referenceGrids (clearGrids capturedPair) twoPixelFrame darkFrame) [[1, 0]]
          = findHoles (newReader 2 1 90 40 True) [[1, 0]]"
    by (rule findHoles_dims) (simp_all add: capturedPair_def newReader_def)
  show ?thesis
    unfolding calibrationHoles_def Let_def getOrdered_clearGrids pair_ordered prod.case option.case
      pair_detectable eq pair_findHoles
    by simp
qed

theorem wrong_hole_count_resets_witness:
  "length (calibrationImages capturedPair) = 2 \<and>
   calibrationHoles capturedPair = Some [] \<and> length ([] :: coord list list) \<noteq> 12 \<and>
   attemptCalibration capturedPair = Some (Inr False, [Alert, Post ReadStop], snd (resetCalibration capturedPair)) \<and>
   backgroundMask (snd (resetCalibration capturedPair)) = [[0, 0]] \<and>
   litReference (snd (resetCalibration capturedPair)) = [[Num 0, Num 0]] \<and>
   \<not> calibrated (snd (resetCalibration capturedPair))"
proof -
  have h: "length (calibrationImages capturedPair) = 2" by (simp add: capturedPair_def)
  from wrong_hole_count_resets [OF h] pair_holes h show ?thesis
    by (auto simp: Let_def capturedPair_def newReader_def create2dArray_def numeral_2_eq_2)
qed

section \<open>The pending calibration images\<close>

lemma attemptCalibration_total:
  "\<exists>outcome es s'. attemptCalibration s = Some (outcome, es, s')
      \<and> (calibrationImages s' = calibrationImages s \<or> calibrationImages s' = [])"
proof -
  from determineLocations_total [of s] obtain outcome es s' where
    d: "determineLocations s = Some (outcome, es, s')"
    "calibrationImages s' = calibrationImages s \<or> calibrationImages s' = []" by blast
  show ?thesis
  proof (cases "outcome = Inr True")
    case True
    with d show ?thesis by (auto simp: attemptCalibration_def)
  next
    case False
    then have "attemptCalibration s = Some (outcome, es, s')"
      using d(1) by (cases outcome) (auto simp: attemptCalibration_def)
    with d(2) show ?thesis by simp
  qed
qed

lemma captureCalibrationImage_total:
  assumes "length (calibrationImages s) \<le> 2"
  shows "\<exists>outcome es s'. captureCalibrationImage s frame auto = Some (outcome, es, s')
           \<and> length (calibrationImages s') \<le> 2"
proof (cases "length (calibrationImages s) = 2")
  case True
  then show ?thesis by (simp add: captureCalibrationImage_def resetCalibration_def)
next
  case False
  with assms have lt: "length (calibrationImages s) < 2" by simp
  let ?s1 = "s\<lparr>calibrationImages := calibrationImages s @ [frame]\<rparr>"
  show ?thesis
  proof (cases "length (calibrationImages ?s1) = 2 \<and> auto")
    case False
    then show ?thesis using lt by (auto simp: captureCalibrationImage_def Let_def)
  next
    case True
    from attemptCalibration_total [of ?s1] obtain outcome es s' where
      a: "attemptCalibration ?s1 = Some (outcome, es, s')"
      "calibrationImages s' = calibrationImages ?s1 \<or> calibrationImages s' = []" by blast
    then have "length (calibrationImages s') \<le> 2" using True by auto
    then show ?thesis
      using lt True a(1) by (cases outcome) (auto simp: captureCalibrationImage_def Let_def)
  qed
qed

lemma perform_total:
  assumes "length (calibrationImages s) \<le> 2"
  shows "\<exists>s'. perform s c = Some s' \<and> length (calibrationImages s') \<le> 2"
proof (cases c)
  case (CaptureCalibrationImage frame auto)
  with captureCalibrationImage_total [OF assms, of frame auto] show ?thesis by auto
next
  case AttemptCalibration
  with attemptCalibration_total [of s] assms show ?thesis by auto
next
  case ResetCalibration
  then show ?thesis by (simp add: resetCalibration_def)
next
  case (ReadDisplays frame)
  then show ?thesis using assms by (simp add: readDisplays_def notifyDisplay_def)
next
  case (Refine frame)
  then show ?thesis using assms by (simp add: refine_def Let_def)
next
  case (WorkerMessage frame)
  then show ?thesis using assms by (simp add: onWorkerMessage_def readDisplays_def notifyDisplay_def)
qed

lemma performAll_total:
  assumes "length (calibrationImages s) \<le> 2"
  shows "\<exists>s'. performAll s calls = Some s' \<and> length (calibrationImages s') \<le> 2"
  using assms
proof (induction calls arbitrary: s)
  case Nil
  then show ?case by simp
next
  case (Cons c calls)
  from perform_total [OF Cons.prems, of c] obtain s1 where
    "perform s c = Some s1" "length (calibrationImages s1) \<le> 2" by blast
  with Cons.IH [of s1] show ?case by simp
qed

text \<open>
  Claim C10. Whatever calls are made on a new reader, each of them returns and at most
  two calibration images are held afterwards. \<open>captureCalibrationImage\<close> called while two
  are held resets the calibration (the worker is told to stop, \<open>calibrated\<close> is false, the
  background mask, the reference grids and the difference grid are zero, every sample set
  is empty, the pending images are gone) and then holds the new frame alone; a tick of
  the worker that still arrives reads nothing and tells the worker to stop again.
\<close>

theorem at_most_two_calibration_images:
  "(\<exists>s'. performAll (newReader width height gray dp rot) calls = Some s'
          \<and> length (calibrationImages s') \<le> 2)
   \<and> (length (calibrationImages s) = 2 \<longrightarrow>
        (let s' = (snd (resetCalibration s))\<lparr>calibrationImages := [frame]\<rparr>
         in captureCalibrationImage s frame auto = Some (Inr (), [Post ReadStop], s') \<and>
            calibrationImages s' = [frame] \<and> \<not> calibrated s' \<and>
            backgroundMask s' = create2dArray (canvasHeight s) (canvasWidth s) 0 \<and>
            litReference s' = create2dArray (canvasHeight s) (canvasWidth s) (Num 0) \<and>
            unlitReference s' = create2dArray (canvasHeight s) (canvasWidth s) (Num 0) \<and>
            grayArray s' = create2dArray (canvasHeight s) (canvasWidth s) (Num 0) \<and>
            (\<forall>digit segment. segmentSamples s' digit segment = []) \<and>
            lastDisplay s' = None \<and> consistentOutputCount s' = 0 \<and>
            onWorkerMessage s' tick = ([Post ReadStop], s')))"
proof -
  have "length (calibrationImages (newReader width height gray dp rot)) \<le> 2"
    by (simp add: newReader_def)
  from performAll_total [OF this] show ?thesis
    by (auto simp: captureCalibrationImage_def resetCalibration_def Let_def createPixelArray_def
        noSamples_def onWorkerMessage_def)
qed

theorem at_most_two_calibration_images_witness:
  "length (calibrationImages capturedPair) = 2 \<and>
   captureCalibrationImage capturedPair darkFrame True
     = Some (Inr (), [Post ReadStop], (snd (resetCalibration capturedPair))\<lparr>calibrationImages := [darkFrame]\<rparr>) \<and>
   calibrationImages ((snd (resetCalibration capturedPair))\<lparr>calibrationImages := [darkFrame]\<rparr>) = [darkFrame] \<and>
   \<not> calibrated ((snd (resetCalibration capturedPair))\<lparr>calibrationImages := [darkFrame]\<rparr>)"
proof -
  have h: "length (calibrationImages capturedPair) = 2" by (simp add: capturedPair_def)
  from at_most_two_calibration_images [of 2 1 90 40 True "[]" capturedPair darkFrame True darkFrame] h
  show ?thesis by (simp add: Let_def)
qed

section \<open>What the flood fill marks\<close>

lemma indicatorGrid_empty: "createPixelArray s 0 = indicatorGrid (canvasHeight s) (canvasWidth s) {}"
  by (simp add: createPixelArray_def create2dArray_def indicatorGrid_def map_replicate_const)

lemma length_indicatorGrid [simp]: "length (indicatorGrid h w M) = h"
  by (simp add: indicatorGrid_def)

lemma setPixel_indicatorGrid_nat:
  assumes "i < w" "j < h"
  shows "setPixel (indicatorGrid h w M) (int i) (int j) = Inr (indicatorGrid h w (insert (int i, int j) M))"
proof -
  let ?row = "\<lambda>M y. map (\<lambda>x. if (int x, int y) \<in> M then 1 else (0::nat)) [0..<w]"
  have at: "elemAt (indicatorGrid h w M) (int j) = Some (?row M j)"
    using assms by (simp add: elemAt_def indicatorGrid_def)
  have row: "writeAt (?row M j) (int i) 1 = ?row (insert (int i, int j) M) j"
    using assms by (auto simp: writeAt_def intro!: nth_equalityI simp: nth_list_update)
  have upd: "(indicatorGrid h w M)[j := ?row (insert (int i, int j) M) j]
          = indicatorGrid h w (insert (int i, int j) M)"
    using assms by (auto simp: indicatorGrid_def intro!: nth_equalityI simp: nth_list_update)
  show ?thesis unfolding setPixel_def at option.case row nat_int upd ..
qed

lemma setPixel_indicatorGrid:
  assumes "0 \<le> nx" "nat nx < w" "0 \<le> ny" "nat ny < h"
  shows "setPixel (indicatorGrid h w M) nx ny = Inr (indicatorGrid h w (insert (nx, ny) M))"
  using setPixel_indicatorGrid_nat [OF assms(2,4), of M] assms(1,3) by simp

lemma admits_cells:
  assumes "\<forall>x y. cell2 grid x y = None \<longrightarrow> \<not> incl None (x, y) grid" "admits incl grid c"
  shows "c \<in> cells grid"
proof -
  from assms(2) obtain row where r: "elemAt grid (snd c) = Some row" "incl (elemAt row (fst c)) c grid"
    by (auto simp: admits_def split: option.splits)
  have "elemAt row (fst c) \<noteq> None"
  proof
    assume n: "elemAt row (fst c) = None"
    then have "cell2 grid (fst c) (snd c) = None" using r(1) by (simp add: cell2_def)
    with assms(1) have "\<not> incl None (fst c, snd c) grid" by blast
    with r(2) n show False by simp
  qed
  then show ?thesis using r(1) by (simp add: cells_def cell2_def)
qed

lemma cells_in_canvas:
  assumes "length grid \<le> h" "\<forall>row \<in> set grid. length row \<le> w" "c \<in> cells grid"
  shows "0 \<le> fst c \<and> nat (fst c) < w \<and> 0 \<le> snd c \<and> nat (snd c) < h"
proof -
  from assms(3) obtain row v where r: "elemAt grid (snd c) = Some row" and v: "elemAt row (fst c) = Some v"
    by (auto simp: cells_def cell2_def split: option.splits)
  from r have "row \<in> set grid" "0 \<le> snd c" "nat (snd c) < length grid"
    by (auto simp: elemAt_Some_iff)
  moreover from v have "0 \<le> fst c" "nat (fst c) < length row" by (auto simp: elemAt_Some_iff)
  ultimately show ?thesis using assms(1,2) by fastforce
qed

lemma inBoundsOnly_pureTest:
  "(\<forall>x y. cell2 grid x y = None \<longrightarrow> \<not> incl None (x, y) grid) \<Longrightarrow> inBoundsOnly (pureTest incl) grid"
  by (simp add: inBoundsOnly_def pureTest_def)

text \<open>One neighbour, for a test without state.\<close>

lemma visitNeighbour_pure:
  assumes inb: "\<forall>x y. cell2 grid x y = None \<longrightarrow> \<not> incl None (x, y) grid"
    and dims: "length grid \<le> h" "\<forall>row \<in> set grid. length row \<le> w"
    and res: "result st = indicatorGrid h w (visited st \<inter> {c. admits incl grid c})"
  shows "visitNeighbour (pureTest incl) grid c st d =
           (let n = (fst c + fst d, snd c + snd d)
            in if elemAt grid (snd n) = None \<or> n \<in> visited st then Inr st
               else if admits incl grid n
               then Inr (st\<lparr>queue := queue st @ [n], visited := insert n (visited st),
                          result := indicatorGrid h w (insert n (visited st) \<inter> {c. admits incl grid c}),
                          env := ()\<rparr>)
               else Inr (st\<lparr>visited := insert n (visited st), env := ()\<rparr>))"
proof -
  define n where "n = (fst c + fst d, snd c + snd d)"
  show ?thesis
  proof (cases "elemAt grid (snd n)")
    case None
    then show ?thesis by (simp add: visitNeighbour_def Let_def n_def)
  next
    case (Some row)
    show ?thesis
    proof (cases "n \<in> visited st")
      case True
      then show ?thesis using Some by (simp add: visitNeighbour_def Let_def n_def)
    next
      case False
      have adm: "admits incl grid n = incl (elemAt row (fst n)) n grid"
        using Some by (simp add: admits_def)
      show ?thesis
      proof (cases "admits incl grid n")
        case False
        then show ?thesis
          using Some \<open>n \<notin> visited st\<close> adm
          by (simp add: visitNeighbour_def Let_def n_def pureTest_def)
      next
        case True
        from cells_in_canvas [OF dims admits_cells [OF inb True]]
        have b: "0 \<le> fst n" "nat (fst n) < w" "0 \<le> snd n" "nat (snd n) < h" by auto
        have ins: "insert n (visited st) \<inter> {c. admits incl grid c}
                     = insert n (visited st \<inter> {c. admits incl grid c})"
          using True by auto
        have "setPixel (result st) (fst n) (snd n)
                = Inr (indicatorGrid h w (insert n (visited st) \<inter> {c. admits incl grid c}))"
          unfolding res ins using setPixel_indicatorGrid [OF b] by simp
        then show ?thesis
          using Some \<open>n \<notin> visited st\<close> adm True
          by (simp add: visitNeighbour_def Let_def n_def pureTest_def)
      qed
    qed
  qed
qed

lemma fillInvariantI:
  assumes "result st = indicatorGrid h w (visited st \<inter> {c. admits incl grid c})"
    and "set (queue st) \<subseteq> S \<union> (visited st \<inter> {c. admits incl grid c})"
    and "visited st \<inter> {c. admits incl grid c} \<subseteq> floodReach incl grid S"
    and "\<And>c n. c \<in> S \<union> (visited st \<inter> {c. admits incl grid c}) \<Longrightarrow> c \<notin> set (queue st)
            \<Longrightarrow> c \<notin> pending \<Longrightarrow> n \<in> set (neighbours c) \<Longrightarrow> elemAt grid (snd n) \<noteq> None
            \<Longrightarrow> n \<in> visited st"
  shows "fillInvariant incl grid S h w pending st"
  unfolding fillInvariant_def Let_def using assms by blast

lemma fillInvariantD:
  assumes "fillInvariant incl grid S h w pending st"
  shows "result st = indicatorGrid h w (visited st \<inter> {c. admits incl grid c})"
    and "set (queue st) \<subseteq> S \<union> (visited st \<inter> {c. admits incl grid c})"
    and "visited st \<inter> {c. admits incl grid c} \<subseteq> floodReach incl grid S"
    and "\<And>c n. c \<in> S \<union> (visited st \<inter> {c. admits incl grid c}) \<Longrightarrow> c \<notin> set (queue st)
            \<Longrightarrow> c \<notin> pending \<Longrightarrow> n \<in> set (neighbours c) \<Longrightarrow> elemAt grid (snd n) \<noteq> None
            \<Longrightarrow> n \<in> visited st"
  using assms unfolding fillInvariant_def Let_def by blast+

lemma fillInvariant_step:
  assumes inb: "\<forall>x y. cell2 grid x y = None \<longrightarrow> \<not> incl None (x, y) grid"
    and dims: "length grid \<le> h" "\<forall>row \<in> set grid. length row \<le> w"
    and inv: "fillInvariant incl grid S h w {c} st"
    and cin: "c \<in> S \<union> (visited st \<inter> {c. admits incl grid c})"
    and dn: "\<forall>d' \<in> D. elemAt grid (snd c + snd d') \<noteq> None \<longrightarrow> (fst c + fst d', snd c + snd d') \<in> visited st"
    and d: "d \<in> set directions"
  shows "\<exists>st'. visitNeighbour (pureTest incl) grid c st d = Inr st'
           \<and> fillInvariant incl grid S h w {c} st'
           \<and> c \<in> S \<union> (visited st' \<inter> {c. admits incl grid c})
           \<and> (\<forall>d' \<in> insert d D. elemAt grid (snd c + snd d') \<noteq> None
                  \<longrightarrow> (fst c + fst d', snd c + snd d') \<in> visited st')"
proof -
  define n where "n = (fst c + fst d, snd c + snd d)"
  define A where "A = {c. admits incl grid c}"
  have res: "result st = indicatorGrid h w (visited st \<inter> {c. admits incl grid c})"
    and q: "set (queue st) \<subseteq> S \<union> (visited st \<inter> A)"
    and r: "visited st \<inter> A \<subseteq> floodReach incl grid S"
    and cl: "\<And>c' n'. c' \<in> S \<union> (visited st \<inter> A) \<Longrightarrow> c' \<notin> set (queue st) \<Longrightarrow> c' \<notin> {c}
              \<Longrightarrow> n' \<in> set (neighbours c') \<Longrightarrow> elemAt grid (snd n') \<noteq> None \<Longrightarrow> n' \<in> visited st"
    using fillInvariantD [OF inv] unfolding A_def by blast+
  note step = visitNeighbour_pure [OF inb dims res, of c d, unfolded Let_def, folded n_def A_def]
  have nn: "n \<in> set (neighbours c)" using d by (simp add: neighbours_def n_def)
  show ?thesis
  proof (cases "elemAt grid (snd n) = None \<or> n \<in> visited st")
    case True
    then have "visitNeighbour (pureTest incl) grid c st d = Inr st" using step by simp
    moreover have "\<forall>d' \<in> insert d D. elemAt grid (snd c + snd d') \<noteq> None
                  \<longrightarrow> (fst c + fst d', snd c + snd d') \<in> visited st"
      using dn True by (auto simp: n_def)
    ultimately show ?thesis using inv cin by auto
  next
    case False
    then have row: "elemAt grid (snd n) \<noteq> None" and nv: "n \<notin> visited st" by auto
    show ?thesis
    proof (cases "admits incl grid n")
      case True
      let ?st' = "st\<lparr>queue := queue st @ [n], visited := insert n (visited st),
                     result := indicatorGrid h w (insert n (visited st) \<inter> A), env := ()\<rparr>"
      have eq: "visitNeighbour (pureTest incl) grid c st d = Inr ?st'"
        using step False True by simp
      have nr: "n \<in> floodReach incl grid S"
        using cin r nn True by (auto intro: floodReach.first floodReach.onward simp: A_def)
      have m: "insert n (visited st) \<inter> A = insert n (visited st \<inter> A)" using True by (auto simp: A_def)
      have "fillInvariant incl grid S h w {c} ?st'"
      proof (rule fillInvariantI)
        show "result ?st' = indicatorGrid h w (visited ?st' \<inter> {c. admits incl grid c})"
          by (simp add: A_def)
        show "set (queue ?st') \<subseteq> S \<union> (visited ?st' \<inter> {c. admits incl grid c})"
          using q True by (auto simp: A_def)
        show "visited ?st' \<inter> {c. admits incl grid c} \<subseteq> floodReach incl grid S"
          using r nr by (auto simp: A_def)
      next
        fix c' n'
        assume a: "c' \<in> S \<union> (visited ?st' \<inter> {c. admits incl grid c})" "c' \<notin> set (queue ?st')"
          "c' \<notin> {c}" "n' \<in> set (neighbours c')" "elemAt grid (snd n') \<noteq> None"
        from a(2) have "c' \<noteq> n" "c' \<notin> set (queue st)" by auto
        with a(1) have "c' \<in> S \<union> (visited st \<inter> A)" by (auto simp: A_def)
        from cl [OF this \<open>c' \<notin> set (queue st)\<close> a(3,4,5)] show "n' \<in> visited ?st'" by simp
      qed
      moreover have "c \<in> S \<union> (visited ?st' \<inter> A)" using cin by (auto simp: A_def)
      moreover have "\<forall>d' \<in> insert d D. elemAt grid (snd c + snd d') \<noteq> None
                  \<longrightarrow> (fst c + fst d', snd c + snd d') \<in> visited ?st'"
        using dn by (auto simp: n_def)
      ultimately show ?thesis using eq by (auto simp: A_def)
    next
      case nadm: False
      let ?st' = "st\<lparr>visited := insert n (visited st), env := ()\<rparr>"
      have eq: "visitNeighbour (pureTest incl) grid c st d = Inr ?st'"
        using step False nadm by simp
      have m: "insert n (visited st) \<inter> A = visited st \<inter> A" using nadm by (auto simp: A_def)
      have "fillInvariant incl grid S h w {c} ?st'"
      proof (rule fillInvariantI)
        show "result ?st' = indicatorGrid h w (visited ?st' \<inter> {c. admits incl grid c})"
          using res m by (simp add: A_def)
        show "set (queue ?st') \<subseteq> S \<union> (visited ?st' \<inter> {c. admits incl grid c})"
          using q by (auto simp: A_def)
        show "visited ?st' \<inter> {c. admits incl grid c} \<subseteq> floodReach incl grid S"
          using r m by (simp add: A_def)
      next
        fix c' n'
        assume a: "c' \<in> S \<union> (visited ?st' \<inter> {c. admits incl grid c})" "c' \<notin> set (queue ?st')"
          "c' \<notin> {c}" "n' \<in> set (neighbours c')" "elemAt grid (snd n') \<noteq> None"
        from a(1) m have "c' \<in> S \<union> (visited st \<inter> A)" by (auto simp: A_def)
        moreover from a(2) have "c' \<notin> set (queue st)" by simp
        ultimately show "n' \<in> visited ?st'" using cl [OF _ _ a(3,4,5)] by simp
      qed
      moreover have "c \<in> S \<union> (visited ?st' \<inter> A)" using cin by (auto simp: A_def)
      moreover have "\<forall>d' \<in> insert d D. elemAt grid (snd c + snd d') \<noteq> None
                  \<longrightarrow> (fst c + fst d', snd c + snd d') \<in> visited ?st'"
        using dn by (auto simp: n_def)
      ultimately show ?thesis using eq by (auto simp: A_def)
    qed
  qed
qed

lemma fillInvariant_visitAll:
  assumes inb: "\<forall>x y. cell2 grid x y = None \<longrightarrow> \<not> incl None (x, y) grid"
    and dims: "length grid \<le> h" "\<forall>row \<in> set grid. length row \<le> w"
    and inv: "fillInvariant incl grid S h w {c} st"
    and cin: "c \<in> S \<union> (visited st \<inter> {c. admits incl grid c})"
    and dn: "\<forall>d' \<in> D. elemAt grid (snd c + snd d') \<noteq> None \<longrightarrow> (fst c + fst d', snd c + snd d') \<in> visited st"
    and ds: "set ds \<subseteq> set directions"
  shows "\<exists>st'. visitAll (pureTest incl) grid c st ds = Inr st'
           \<and> fillInvariant incl grid S h w {c} st'
           \<and> (\<forall>d' \<in> D \<union> set ds. elemAt grid (snd c + snd d') \<noteq> None
                  \<longrightarrow> (fst c + fst d', snd c + snd d') \<in> visited st')"
  using inv cin dn ds
proof (induction ds arbitrary: st D)
  case Nil
  then show ?case by simp
next
  case (Cons d ds)
  from Cons.prems(4) have d: "d \<in> set directions" and rest: "set ds \<subseteq> set directions" by auto
  from fillInvariant_step [OF inb dims Cons.prems(1,2,3) d] obtain st1 where
    1: "visitNeighbour (pureTest incl) grid c st d = Inr st1"
       "fillInvariant incl grid S h w {c} st1"
       "c \<in> S \<union> (visited st1 \<inter> {c. admits incl grid c})"
       "\<forall>d' \<in> insert d D. elemAt grid (snd c + snd d') \<noteq> None
                  \<longrightarrow> (fst c + fst d', snd c + snd d') \<in> visited st1" by blast
  from Cons.IH [OF 1(2,3,4) rest] obtain st2 where
    2: "visitAll (pureTest incl) grid c st1 ds = Inr st2"
       "fillInvariant incl grid S h w {c} st2"
       "\<forall>d' \<in> insert d D \<union> set ds. elemAt grid (snd c + snd d') \<noteq> None
                  \<longrightarrow> (fst c + fst d', snd c + snd d') \<in> visited st2" by blast
  from 1(1) 2 show ?case by auto
qed

lemma neighbours_iff:
  "n \<in> set (neighbours c) \<longleftrightarrow> (\<exists>d \<in> set directions. n = (fst c + fst d, snd c + snd d))"
  by (auto simp: neighbours_def)

lemma fillLoop_invariant:
  assumes inb: "\<forall>x y. cell2 grid x y = None \<longrightarrow> \<not> incl None (x, y) grid"
    and dims: "length grid \<le> h" "\<forall>row \<in> set grid. length row \<le> w"
    and inv: "fillInvariant incl grid S h w {} st"
  shows "\<exists>st'. fillLoop (pureTest incl) grid st = Some (Inr st')
           \<and> fillInvariant incl grid S h w {} st' \<and> queue st' = []"
  using inv
proof (induction "fillMeasure grid st" arbitrary: st rule: less_induct)
  case less
  note inv = less.prems
  show ?case
  proof (cases "queue st")
    case Nil
    then show ?thesis using inv by (subst fillLoop.simps) simp
  next
    case (Cons c rest)
    let ?st0 = "st\<lparr>queue := rest\<rparr>"
    note D = fillInvariantD [OF inv]
    have inv0: "fillInvariant incl grid S h w {c} ?st0"
    proof (rule fillInvariantI)
      show "result ?st0 = indicatorGrid h w (visited ?st0 \<inter> {c. admits incl grid c})"
        using D(1) by simp
      show "set (queue ?st0) \<subseteq> S \<union> (visited ?st0 \<inter> {c. admits incl grid c})"
        using D(2) Cons by auto
      show "visited ?st0 \<inter> {c. admits incl grid c} \<subseteq> floodReach incl grid S"
        using D(3) by simp
    next
      fix c' n'
      assume a: "c' \<in> S \<union> (visited ?st0 \<inter> {c. admits incl grid c})" "c' \<notin> set (queue ?st0)"
        "c' \<notin> {c}" "n' \<in> set (neighbours c')" "elemAt grid (snd n') \<noteq> None"
      from a(2,3) Cons have "c' \<notin> set (queue st)" by auto
      moreover from a(1) have "c' \<in> S \<union> (visited st \<inter> {c. admits incl grid c})" by simp
      ultimately show "n' \<in> visited ?st0" using D(4) [OF _ _ _ a(4,5)] by simp
    qed
    have cin: "c \<in> S \<union> (visited ?st0 \<inter> {c. admits incl grid c})" using D(2) Cons by auto
    have dn: "\<forall>d' \<in> {}. elemAt grid (snd c + snd d') \<noteq> None \<longrightarrow> (fst c + fst d', snd c + snd d') \<in> visited ?st0"
      by simp
    have "\<exists>st'. visitAll (pureTest incl) grid c ?st0 directions = Inr st'
           \<and> fillInvariant incl grid S h w {c} st'
           \<and> (\<forall>d' \<in> {} \<union> set directions. elemAt grid (snd c + snd d') \<noteq> None
                  \<longrightarrow> (fst c + fst d', snd c + snd d') \<in> visited st')"
      using inb dims inv0 cin dn by (rule fillInvariant_visitAll) simp
    then obtain st1 where
      1: "visitAll (pureTest incl) grid c ?st0 directions = Inr st1"
         "fillInvariant incl grid S h w {c} st1"
         "\<forall>d' \<in> {} \<union> set directions. elemAt grid (snd c + snd d') \<noteq> None
                  \<longrightarrow> (fst c + fst d', snd c + snd d') \<in> visited st1" by blast
    note D1 = fillInvariantD [OF 1(2)]
    have inv1: "fillInvariant incl grid S h w {} st1"
    proof (rule fillInvariantI)
      fix c' n'
      assume a: "c' \<in> S \<union> (visited st1 \<inter> {c. admits incl grid c})" "c' \<notin> set (queue st1)"
        "c' \<notin> {}" "n' \<in> set (neighbours c')" "elemAt grid (snd n') \<noteq> None"
      show "n' \<in> visited st1"
      proof (cases "c' = c")
        case True
        with a(4) obtain d where "d \<in> set directions" "n' = (fst c + fst d, snd c + snd d)"
          by (auto simp: neighbours_iff)
        with 1(3) a(5) show ?thesis by auto
      next
        case False
        then have "c' \<notin> {c}" by simp
        from D1(4) [OF a(1,2) this a(4,5)] show ?thesis .
      qed
    qed (rule D1(1) D1(2) D1(3))+
    have r0: "length grid \<le> length (result ?st0)" using D(1) dims(1) by simp
    have ib: "inBoundsOnly (pureTest incl) grid" using inb by (rule inBoundsOnly_pureTest)
    from visitAll_measure [OF ib r0, of c directions] 1(1)
    have "fillMeasure grid st1 \<le> fillMeasure grid ?st0" by auto
    moreover have "fillMeasure grid ?st0 < fillMeasure grid st" using Cons by (simp add: fillMeasure_def)
    ultimately have "fillMeasure grid st1 < fillMeasure grid st" by simp
    from less.hyps [OF this inv1] obtain st' where
      "fillLoop (pureTest incl) grid st1 = Some (Inr st')" "fillInvariant incl grid S h w {} st'"
      "queue st' = []" by blast
    then show ?thesis using Cons 1(1) by (subst fillLoop.simps) simp
  qed
qed

lemma admits_row: "admits incl grid n \<Longrightarrow> elemAt grid (snd n) \<noteq> None"
  by (auto simp: admits_def split: option.splits)

lemma floodReach_marked:
  assumes inv: "fillInvariant incl grid S h w {} st" and q: "queue st = []"
  shows "visited st \<inter> {c. admits incl grid c} = floodReach incl grid S"
proof
  show "visited st \<inter> {c. admits incl grid c} \<subseteq> floodReach incl grid S"
    using fillInvariantD(3) [OF inv] .
  show "floodReach incl grid S \<subseteq> visited st \<inter> {c. admits incl grid c}"
  proof
    fix n assume "n \<in> floodReach incl grid S"
    then show "n \<in> visited st \<inter> {c. admits incl grid c}"
    proof induction
      case (first s n)
      have "n \<in> visited st"
        using fillInvariantD(4) [OF inv, of s n] first q admits_row [OF first(3)] by simp
      with first show ?case by simp
    next
      case (onward c n)
      have "n \<in> visited st"
        using fillInvariantD(4) [OF inv, of c n] onward q admits_row [OF onward(3)] by simp
      with onward show ?case by simp
    qed
  qed
qed

lemma generateBitmask_pure:
  assumes "\<forall>x y. cell2 grid x y = None \<longrightarrow> \<not> incl None (x, y) grid"
    and "length grid \<le> canvasHeight s"
    and "\<forall>row \<in> set grid. length row \<le> canvasWidth s"
  shows "generateBitmask truthy s grid (Some (pureTest incl)) None seeds () =
           Some (Inr (indicatorGrid (canvasHeight s) (canvasWidth s)
                        (floodReach incl grid (set (if seeds = [] then [(0, 0)] else seeds))), ()))"
proof -
  let ?S = "set (if seeds = [] then [(0, 0)] else seeds)"
  let ?st = "\<lparr>queue = (if seeds = [] then [(0, 0)] else seeds), visited = {},
               result = createPixelArray s 0, env = ()\<rparr>"
  have "fillInvariant incl grid ?S (canvasHeight s) (canvasWidth s) {} ?st"
    by (rule fillInvariantI) (simp_all add: indicatorGrid_empty)
  with assms have "\<exists>st'. fillLoop (pureTest incl) grid ?st = Some (Inr st')
           \<and> fillInvariant incl grid ?S (canvasHeight s) (canvasWidth s) {} st' \<and> queue st' = []"
    by (rule fillLoop_invariant)
  then obtain st' where
    1: "fillLoop (pureTest incl) grid ?st = Some (Inr st')"
       "fillInvariant incl grid ?S (canvasHeight s) (canvasWidth s) {} st'" "queue st' = []" by blast
  from floodReach_marked [OF 1(2,3)] fillInvariantD(1) [OF 1(2)]
  have "result st' = indicatorGrid (canvasHeight s) (canvasWidth s) (floodReach incl grid ?S)" by simp
  with 1(1) show ?thesis by (simp add: generateBitmask_def)
qed

text \<open>
  Claim C5. For a test without state that rejects every coordinate at which the grid has
  no value, and a grid that fits the canvas, \<open>generateBitmask\<close> returns, and the bitmap it
  returns has 1 exactly at the coordinates that a path of one or more steps reaches from a
  seed, each step going to one of the eight neighbours that passes the test. The bitmap is
  given by the set of the seeds, so neither their order nor the order in which the queue
  is processed matters.
\<close>

theorem flood_fill_marks_reach:
  assumes "\<forall>x y. cell2 grid x y = None \<longrightarrow> \<not> incl None (x, y) grid"
    and "length grid \<le> canvasHeight s"
    and "\<forall>row \<in> set grid. length row \<le> canvasWidth s"
  shows "generateBitmask truthy s grid (Some (pureTest incl)) None seeds () =
           Some (Inr (indicatorGrid (canvasHeight s) (canvasWidth s)
                        (floodReach incl grid (set (if seeds = [] then [(0, 0)] else seeds))), ()))"
  using assms by (rule generateBitmask_pure)

theorem flood_fill_marks_reach_witness:
  "generateBitmask (\<lambda>v. v \<noteq> 0) (newReader 3 1 90 40 True) [[0, 0, 1]] (Some (pureTest isZero)) None [(1, 0)] () =
     Some (Inr (indicatorGrid 1 3 (floodReach isZero [[0, 0, 1]] {(1, 0)}), ()))
   \<and> indicatorGrid 1 3 (floodReach isZero [[0, 0, 1]] {(1, 0)}) = [[1, 1, 0]]"
proof -
  have "generateBitmask (\<lambda>v. v \<noteq> 0) (newReader 3 1 90 40 True) [[0, 0, 1]] (Some (pureTest isZero)) None [(1, 0)] ()
          = Some (Inr ([[1, 1, 0]], ()))"
    by code_simp
  with flood_fill_marks_reach [of "[[0, 0, 1]]" isZero "newReader 3 1 90 40 True" "\<lambda>v. v \<noteq> 0" "[(1, 0)]"]
  show ?thesis by (simp add: isZero_def newReader_def)
qed

text \<open>
  A seed is marked only when the fill comes back to it from a neighbour: on the grid of
  one value 0, the seed satisfies the test "is 0" and stays unmarked. And a neighbour is
  skipped when its row is missing, while its column is not looked at: a test that accepts
  coordinates to the right of the grid gets them marked, and the bitmap of one pixel
  comes back four pixels wide.
\<close>

theorem seed_unmarked_and_row_overrun:
  "generateBitmask (\<lambda>v. v \<noteq> 0) (newReader 1 1 90 40 True) [[0]] (Some (pureTest isZero)) None [(0, 0)] () =
     Some (Inr ([[0]], ()))
   \<and> (0, 0) \<in> predicateReachable isZero [[0]] {(0, 0)}
   \<and> generateBitmask (\<lambda>v. v \<noteq> 0) (newReader 1 1 90 40 True) [[0]] (Some (pureTest upToThree)) None [(0, 0)] () =
     Some (Inr ([[1, 1, 1, 1]], ()))
   \<and> (3, 0) \<notin> cells [[0 :: nat]]"
proof (intro conjI)
  show "generateBitmask (\<lambda>v. v \<noteq> 0) (newReader 1 1 90 40 True) [[0]] (Some (pureTest isZero)) None [(0, 0)] () =
     Some (Inr ([[0]], ()))"
    by code_simp
  show "(0, 0) \<in> predicateReachable isZero [[0]] {(0, 0)}"
    by (rule predicateReachable.seed) (simp_all add: cells_def cell2_def elemAt_def admits_def isZero_def)
  show "generateBitmask (\<lambda>v. v \<noteq> 0) (newReader 1 1 90 40 True) [[0]] (Some (pureTest upToThree)) None [(0, 0)] () =
     Some (Inr ([[1, 1, 1, 1]], ()))"
    by code_simp
  show "(3, 0) \<notin> cells [[0 :: nat]]"
    by (simp add: cells_def cell2_def elemAt_def)
qed

section \<open>The decimal point\<close>






lemma sampleSegments_7 [simp]: "sampleSegments s det u l segs 7 = segs 7"
  by (simp add: sampleSegments_def)

lemma map_upd_7: "map (f(7 := v)) [0..<7] = map f [0..<7]"
  by (rule map_cong) simp_all

lemma rightmostX_upd_7 [simp]: "rightmostX (f(7 := v)) = rightmostX f"
  by (simp add: rightmostX_def map_upd_7)

lemma bottommostY_upd_7 [simp]: "bottommostY (f(7 := v)) = bottommostY f"
  by (simp add: bottommostY_def map_upd_7)

lemma decimalPointRegion_upd_7 [simp]:
  "decimalPointRegion grid t (f(7 := v)) = decimalPointRegion grid t f"
  by (simp add: decimalPointRegion_def)



lemma length_kmeans:
  "length centers = 6 \<Longrightarrow> length (fst (kmeans n holes centers a)) = 6"
  by (induction n holes centers a rule: kmeans.induct) (simp_all add: Let_def recenter_def)

lemma length_digitGroups [simp]: "length (digitGroups holes) = 6"
proof -
  let ?ordered = "sort_key centerX (map measureHole holes)"
  let ?centers0 = "map (\<lambda>index. centerX (?ordered ! (index * length ?ordered div 6))) [0..<6]"
  have "length (fst (kmeans 10 ?ordered ?centers0 (replicate 12 0))) = 6"
    by (rule length_kmeans) simp
  then show ?thesis
    by (simp add: digitGroups_def Let_def case_prod_unfold)
qed






section \<open>A calibration that succeeds\<close>

text \<open>The stripe frames: their bytes, gray levels and sums, and the calibration on them.\<close>

lemma stripeFrame_length: "length (data (stripeFrame w h)) = 584"
  using concat_chunks(1) [of "\<lambda>x. if wallAt x then [w, w, w, 255] else [h, h, h, 255]" 4 146]
  by (simp add: stripeFrame_def)

lemma stripeFrame_byte:
  assumes "i < 146" "j < 4"
  shows "elemAt (data (stripeFrame w h)) (int i * 4 + int j) =
           Some ((if wallAt i then [w, w, w, 255] else [h, h, h, 255]) ! j)"
proof -
  let ?f = "\<lambda>x. if wallAt x then [w, w, w, 255] else [h, h, h, 255::nat]"
  have c: "\<And>i. length (?f i) = 4" by simp
  have lt: "i * 4 + j < 584" using assms by simp
  have e: "int i * 4 + int j = int (i * 4 + j)" by simp
  show ?thesis
    unfolding e elemAt_def
    using concat_chunks(2) [of ?f 4 i 146 j, OF c assms] stripeFrame_length [of w h] lt
    by (simp add: stripeFrame_def del: of_nat_add of_nat_mult)
qed

lemma stripeFrame_gray:
  assumes "i < 146" "canvasWidth s = 146" "w \<le> 255" "h \<le> 255"
  shows "getPixelGrayValue s (stripeFrame w h) (int i) 0 = Num (of_nat (if wallAt i then w else h))"
proof -
  have f: "fl (of_nat n) = of_nat n" if "n \<le> 255" for n
    using fl_of_int [of "int n"] that by simp
  from stripeFrame_byte [OF assms(1), of 0 w h] stripeFrame_byte [OF assms(1), of 1 w h]
    stripeFrame_byte [OF assms(1), of 2 w h]
  show ?thesis using assms(3,4) by (simp add: getPixelGrayValue_def assms(2) add.assoc f)
qed

lemma stripeFrame_byteSum:
  assumes "i < 146"
  shows "byteSum (data (stripeFrame w h)) (int (4 * i)) = Num (of_nat (3 * (if wallAt i then w else h)))"
proof -
  have e: "int (4 * i) = int i * 4 + int 0" "int (4 * i) + 1 = int i * 4 + int 1"
    "int (4 * i) + 2 = int i * 4 + int 2" by simp_all
  show ?thesis
    unfolding byteSum_def e
    using stripeFrame_byte [OF assms, of 0 w h] stripeFrame_byte [OF assms, of 1 w h]
      stripeFrame_byte [OF assms, of 2 w h]
    by simp
qed

lemma strided_4: "strided (4 * n) 4 = map (\<lambda>i. 4 * i) [0..<n]"
proof (induction n)
  case 0
  then show ?case by (simp add: strided_def)
next
  case (Suc n)
  have "[0..<4 * n + 4] = [0..<4 * n] @ [4 * n..<4 * n + 4]"
    by (rule upt_add_eq_append) simp
  moreover have "[4 * n..<4 * n + 4] = [4 * n, 4 * n + 1, 4 * n + 2, 4 * n + 3]"
    by (simp add: upt_conv_Cons)
  moreover have "(4 * n + 1) mod 4 \<noteq> 0" "(4 * n + 2) mod 4 \<noteq> 0" "(4 * n + 3) mod 4 \<noteq> 0" "(4 * n) mod 4 = 0"
    by presburger+
  moreover have "4 * Suc n = 4 * n + 4" by simp
  ultimately show ?case using Suc by (simp add: strided_def del: mult_Suc_right)
qed

lemma brightness_sum:
  assumes "\<And>i. i < n \<Longrightarrow> byteSum (data img) (int (4 * i)) = Num (of_nat (c i))"
    and "sum_list (map c [0..<n]) < 2 ^ 53"
  shows "brightness img (4 * n) = Num (of_nat (sum_list (map c [0..<n])))"
proof -
  have "m \<le> n \<Longrightarrow> foldl (\<lambda>sum index. jadd sum (byteSum (data img) (int index))) (Num 0) (map (\<lambda>i. 4 * i) [0..<m])
          = Num (of_nat (sum_list (map c [0..<m])))" for m
  proof (induction m)
    case 0
    then show ?case by simp
  next
    case (Suc m)
    have "sum_list (map c [0..<Suc m]) \<le> sum_list (map c [0..<n])"
      using Suc.prems by (metis (no_types) le_add1 le_Suc_ex map_append sum_list.append upt_add_eq_append zero_le)
    then have b: "sum_list (map c [0..<m]) + c m < 2 ^ 53" using assms(2) by simp
    have "fl (of_nat (sum_list (map c [0..<m])) + of_nat (c m)) = of_nat (sum_list (map c [0..<m]) + c m)"
      using fl_of_int [of "int (sum_list (map c [0..<m]) + c m)"] b by (simp del: of_nat_add add: of_nat_add [symmetric])
    then show ?case using Suc assms(1) [of m] by simp
  qed
  from this [of n] show ?thesis by (simp add: brightness_def strided_4)
qed

lemma stripe_sums:
  "sum_list (map (\<lambda>i. 3 * (if wallAt i then 132 else 0)) [0..<146]) = (5544 :: nat)"
  "sum_list (map (\<lambda>i. 3 * (if wallAt i then 0 else 14)) [0..<146]) = (5544 :: nat)"
  by code_simp+

lemma stripe_brightness:
  "brightness wallFrame 584 = Num 5544" "brightness holeFrame 584 = Num 5544"
proof -
  have "brightness wallFrame (4 * 146) = Num (of_nat (sum_list (map (\<lambda>i. 3 * (if wallAt i then 132 else 0)) [0..<146])))"
    unfolding wallFrame_def by (rule brightness_sum) (rule stripeFrame_byteSum, assumption, simp add: stripe_sums)
  then show "brightness wallFrame 584 = Num 5544" by (simp add: stripe_sums)
  have "brightness holeFrame (4 * 146) = Num (of_nat (sum_list (map (\<lambda>i. 3 * (if wallAt i then 0 else 14)) [0..<146])))"
    unfolding holeFrame_def by (rule brightness_sum) (rule stripeFrame_byteSum, assumption, simp add: stripe_sums)
  then show "brightness holeFrame 584 = Num 5544" by (simp add: stripe_sums)
qed

lemma stripe_ordered:
  "getOrderedCalibrationImages (stripeReader [wallFrame, holeFrame]) = (Some holeFrame, Some wallFrame)"
  "getOrderedCalibrationImages (stripeReader [holeFrame, wallFrame]) = (Some wallFrame, Some holeFrame)"
  by (simp_all add: getOrderedCalibrationImages_def stripeReader_def Let_def stripe_brightness
      stripeFrame_length wallFrame_def [symmetric] holeFrame_def [symmetric]
      stripeFrame_length [of 132 0, folded wallFrame_def] stripeFrame_length [of 0 14, folded holeFrame_def])

lemma stripe_gray:
  assumes "i < 146" "canvasWidth s = 146"
  shows "getPixelGrayValue s wallFrame (int i) 0 = Num (if wallAt i then 132 else 0)"
    and "getPixelGrayValue s holeFrame (int i) 0 = Num (if wallAt i then 0 else 14)"
  using stripeFrame_gray [OF assms, of 132 0] stripeFrame_gray [OF assms, of 0 14]
  by (simp_all add: wallFrame_def holeFrame_def)

lemma stripe_detectable:
  assumes "canvasWidth s = 146" "canvasHeight s = 1" "grayThreshold s = 90"
  shows "detectablePixels s holeFrame wallFrame = stripes"
    and "detectablePixels s wallFrame holeFrame = stripes"
  using assms
  by (simp_all add: detectablePixels_def pixelGrid_def stripes_def difference_def stripe_gray fl_eval
      cong: map_cong)

lemma stripe_findHoles:
  "findHoles (newReader 146 1 90 40 True) stripes = Some (Inr ([replicate 146 0], stripeHoles))"
  by code_simp

lemma stripe_holes:
  assumes "canvasWidth s = 146" "canvasHeight s = 1"
  shows "findHoles s stripes = Some (Inr ([replicate 146 0], stripeHoles))"
proof -
  have "findHoles s stripes = findHoles (newReader 146 1 90 40 True) stripes"
    by (rule findHoles_dims) (simp_all add: assms newReader_def)
  from this stripe_findHoles show ?thesis by (rule trans)
qed

lemma length_stripeHoles: "length stripeHoles = 12"
  by (simp add: stripeHoles_def)

lemma stripe_calibration:
  assumes "images = [wallFrame, holeFrame] \<and> l = holeFrame \<and> u = wallFrame
             \<or> images = [holeFrame, wallFrame] \<and> l = wallFrame \<and> u = holeFrame"
  shows "\<exists>es s'. determineLocations (stripeReader images) = Some (Inr True, es, s')
           \<and> sameButSamples ((referenceGrids (clearGrids (stripeReader images)) l u)\<lparr>backgroundMask := [replicate 146 0]\<rparr>) s'
           \<and> calibrationHoles (stripeReader images) = Some stripeHoles"
proof -
  let ?start = "stripeReader images"
  let ?cleared = "clearGrids ?start"
  let ?graded = "referenceGrids ?cleared l u"
  let ?masked = "?graded\<lparr>backgroundMask := [replicate 146 0]\<rparr>"
  have dims: "canvasWidth ?cleared = 146" "canvasHeight ?cleared = 1" "grayThreshold ?cleared = 90"
    by (simp_all add: stripeReader_def newReader_def clearGrids_def)
  have ord: "getOrderedCalibrationImages ?start = (Some l, Some u)"
    using assms stripe_ordered by auto
  have d: "detectablePixels ?cleared l u = stripes"
    using assms stripe_detectable [OF dims] by auto
  have f: "findHoles ?graded stripes = Some (Inr ([replicate 146 0], stripeHoles))"
    by (rule stripe_holes) (simp_all add: stripeReader_def newReader_def)
  have "length (grayArray ?masked) \<le> canvasHeight ?masked" by simp
  from locateDigits_terminates [OF this, of stripes "zip (digitGroups stripeHoles) [0..<6]"]
  obtain es s' where
    ld: "locateDigits stripes ?masked (zip (digitGroups stripeHoles) [0..<6]) = Some (Inr (es, s'))"
    and same: "sameButSamples ?masked s'" by blast
  have "determineLocations ?start = Some (Inr True, es, s')"
    by (simp add: determineLocations_def Let_def ord d f ld length_stripeHoles)
  moreover have "calibrationHoles ?start = Some stripeHoles"
    by (simp add: calibrationHoles_def Let_def ord d f)
  ultimately show ?thesis using same by blast
qed

lemma stripe_reference:
  assumes "canvasWidth s = 146" "canvasHeight s = 1"
  shows "pixelGrid s (getPixelGrayValue s wallFrame) = [map (\<lambda>x. Num (if wallAt x then 132 else 0)) [0..<146]]"
    and "pixelGrid s (getPixelGrayValue s holeFrame) = [map (\<lambda>x. Num (if wallAt x then 0 else 14)) [0..<146]]"
  using assms by (simp_all add: pixelGrid_def stripe_gray cong: map_cong)

text \<open>
  Claim C4, at two frames with the same sum. With either order of the two frames the
  calibration succeeds, and each time the frame that was captured second is taken for the
  lit one: the lit reference grid is that of the frame with the bright holes in the one
  order and that of the frame with the bright walls in the other.
\<close>

theorem equal_brightness_order_matters:
  "brightness wallFrame 584 = Num 5544 \<and> brightness holeFrame 584 = Num 5544
   \<and> determineLocations (stripeReader [wallFrame, holeFrame]) \<noteq> None
   \<and> determineLocations (stripeReader [holeFrame, wallFrame]) \<noteq> None
   \<and> fst (the (determineLocations (stripeReader [wallFrame, holeFrame]))) = Inr True
   \<and> fst (the (determineLocations (stripeReader [holeFrame, wallFrame]))) = Inr True
   \<and> litReference (snd (snd (the (determineLocations (stripeReader [wallFrame, holeFrame])))))
        = [map (\<lambda>x. Num (if wallAt x then 0 else 14)) [0..<146]]
   \<and> litReference (snd (snd (the (determineLocations (stripeReader [holeFrame, wallFrame])))))
        = [map (\<lambda>x. Num (if wallAt x then 132 else 0)) [0..<146]]
   \<and> wallAt 0"
proof -
  have dims: "canvasWidth (clearGrids (stripeReader images)) = 146"
    "canvasHeight (clearGrids (stripeReader images)) = 1" for images
    by (simp_all add: stripeReader_def newReader_def)
  from stripe_calibration [of "[wallFrame, holeFrame]" holeFrame wallFrame] obtain es s' where
    1: "determineLocations (stripeReader [wallFrame, holeFrame]) = Some (Inr True, es, s')"
       "sameButSamples ((referenceGrids (clearGrids (stripeReader [wallFrame, holeFrame])) holeFrame wallFrame)
                          \<lparr>backgroundMask := [replicate 146 0]\<rparr>) s'" by auto
  from stripe_calibration [of "[holeFrame, wallFrame]" wallFrame holeFrame] obtain es2 s2 where
    2: "determineLocations (stripeReader [holeFrame, wallFrame]) = Some (Inr True, es2, s2)"
       "sameButSamples ((referenceGrids (clearGrids (stripeReader [holeFrame, wallFrame])) wallFrame holeFrame)
                          \<lparr>backgroundMask := [replicate 146 0]\<rparr>) s2" by auto
  have "litReference s' = [map (\<lambda>x. Num (if wallAt x then 0 else 14)) [0..<146]]"
    using sameButSamples_fields(12) [OF 1(2)] stripe_reference(2) [OF dims]
    by (simp add: referenceGrids_def)
  moreover have "litReference s2 = [map (\<lambda>x. Num (if wallAt x then 132 else 0)) [0..<146]]"
    using sameButSamples_fields(12) [OF 2(2)] stripe_reference(1) [OF dims]
    by (simp add: referenceGrids_def)
  ultimately show ?thesis using 1(1) 2(1) by (simp add: stripe_brightness wallAt_def)
qed


end
